theory Spec2Isabelle
  imports Complex_Main "HOL-Library.AList" "HOL-Library.Monad_Syntax"
begin

section \<open>JSON values and JavaScript objects\<close>

text \<open>
  Tool schemas, tool inputs and tool results are untyped (\<open>any\<close>) in the source; they
  are JSON values here. An object is the list of its own enumerable properties in the
  order in which \<open>Object.keys\<close> enumerates them.
\<close>

datatype json =
    JNull
  | JBool bool
  | JNum rat
  | JString string
  | JArray "json list"
  | JObject "(string \<times> json) list"

type_synonym obj = "(string \<times> json) list"

text \<open>JavaScript's \<open>ToBoolean\<close>: what \<open>if (x)\<close> and \<open>!x\<close> test.\<close>

fun truthy :: "json \<Rightarrow> bool" where
  "truthy JNull = False"
| "truthy (JBool b) = b"
| "truthy (JNum n) = (n \<noteq> 0)"
| "truthy (JString s) = (s \<noteq> [])"
| "truthy (JArray vs) = True"
| "truthy (JObject kvs) = True"

text \<open>\<open>typeof x === 'object'\<close>: true of objects, arrays and \<open>null\<close>.\<close>

fun typeof_object :: "json \<Rightarrow> bool" where
  "typeof_object JNull = True"
| "typeof_object (JArray vs) = True"
| "typeof_object (JObject kvs) = True"
| "typeof_object v = False"

text \<open>Property read \<open>o[k]\<close> (\<open>None\<close> is \<open>undefined\<close>), write \<open>o[k] = v\<close> (a new key goes
  last, an old one keeps its place) and \<open>delete o[k]\<close>. The keys the code writes are
  words such as \<open>type\<close> or \<open>_context\<close>, never array indices, which JavaScript would
  enumerate first.\<close>

definition obj_get :: "obj \<Rightarrow> string \<Rightarrow> json option" where
  "obj_get ob k = map_of ob k"

definition obj_set :: "obj \<Rightarrow> string \<Rightarrow> json \<Rightarrow> obj" where
  "obj_set ob k v = AList.update k v ob"

definition obj_delete :: "obj \<Rightarrow> string \<Rightarrow> obj" where
  "obj_delete ob k = AList.delete k ob"

text \<open>The decimal name of an array index, as \<open>Object.entries\<close> of an array gives it.\<close>

fun string_of_nat :: "nat \<Rightarrow> string" where
  "string_of_nat n =
     (if n < 10 then [char_of (48 + n)]
      else string_of_nat (n div 10) @ [char_of (48 + n mod 10)])"

declare string_of_nat.simps [simp del]

text \<open>\<open>Object.entries(x)\<close> for an object or an array.\<close>

fun entries :: "json \<Rightarrow> obj" where
  "entries (JObject kvs) = kvs"
| "entries (JArray vs) = zip (map string_of_nat [0..<length vs]) vs"
| "entries v = []"

text \<open>The spread \<open>{...target, ...src}\<close>: the properties of \<open>src\<close> are assigned one by
  one, in order, over those already there.\<close>

definition obj_spread :: "obj \<Rightarrow> obj \<Rightarrow> obj" where
  "obj_spread target src = fold (\<lambda>(k, v) acc. obj_set acc k v) src target"

definition fromEntries :: "obj \<Rightarrow> obj" where
  "fromEntries es = obj_spread [] es"

section \<open>The schema normalizer: cleanJsonSchema\<close>

definition allowedTopLevelProps :: "string list" where
  "allowedTopLevelProps =
     [''type'', ''properties'', ''required'', ''items'', ''description'', ''enum'',
      ''const'', ''default'', ''minimum'', ''maximum'', ''minLength'', ''maxLength'',
      ''pattern'', ''format'', ''minItems'', ''maxItems'', ''uniqueItems'',
      ''additionalProperties'', ''anyOf'', ''oneOf'', ''allOf'', ''not'', ''$ref'',
      ''title'']"

definition validTypes :: "string list" where
  "validTypes =
     [''string'', ''number'', ''integer'', ''boolean'', ''object'', ''array'', ''null'']"

text \<open>Lines 769-778: every key outside the allow-list is deleted.\<close>

definition removeDisallowed :: "obj \<Rightarrow> obj" where
  "removeDisallowed cleaned = filter (\<lambda>(key, v). key \<in> set allowedTopLevelProps) cleaned"

text \<open>Lines 780-796. The second branch is the source's \<open>else if (cleaned.type === '')\<close>:
  it stands under \<open>typeof cleaned.type !== 'string'\<close>.\<close>

definition normalizeType :: "obj \<Rightarrow> obj" where
  "normalizeType cleaned =
     (case obj_get cleaned ''type'' of
        Some (JString t) \<Rightarrow>
          if t \<in> set validTypes then cleaned else obj_set cleaned ''type'' (JString ''string'')
      | Some v \<Rightarrow>
          if v = JString [] then obj_set cleaned ''type'' (JString ''object'') else cleaned
      | None \<Rightarrow> obj_set cleaned ''type'' (JString ''object''))"

text \<open>Lines 798-802.\<close>

definition removeNullable :: "obj \<Rightarrow> obj" where
  "removeNullable cleaned =
     (if obj_get cleaned ''nullable'' \<noteq> None then obj_delete cleaned ''nullable'' else cleaned)"

text \<open>Lines 804-812: the values of \<open>properties\<close> are cleaned by \<open>f\<close>, the recursive call.\<close>

definition cleanProperties :: "(json \<Rightarrow> json option) \<Rightarrow> obj \<Rightarrow> obj option" where
  "cleanProperties f cleaned =
     (case obj_get cleaned ''properties'' of
        Some p \<Rightarrow>
          if truthy p \<and> typeof_object p then
            map_option (\<lambda>es. obj_set cleaned ''properties'' (JObject (fromEntries es)))
              (those (map (\<lambda>(key, v). map_option (Pair key) (f v)) (entries p)))
          else Some cleaned
      | None \<Rightarrow> Some cleaned)"

text \<open>Lines 814-817.\<close>

definition onlyArrayItems :: "obj \<Rightarrow> obj" where
  "onlyArrayItems cleaned =
     (case obj_get cleaned ''items'' of
        Some i \<Rightarrow>
          if truthy i \<and> obj_get cleaned ''type'' \<noteq> Some (JString ''array'')
          then obj_delete cleaned ''items'' else cleaned
      | None \<Rightarrow> cleaned)"

text \<open>Lines 819-826.\<close>

definition cleanItems :: "(json \<Rightarrow> json option) \<Rightarrow> obj \<Rightarrow> obj option" where
  "cleanItems f cleaned =
     (case obj_get cleaned ''items'' of
        Some i \<Rightarrow>
          if truthy i then
            (case i of
               JArray vs \<Rightarrow>
                 map_option (\<lambda>vs'. obj_set cleaned ''items'' (JArray vs')) (those (map f vs))
             | _ \<Rightarrow> map_option (obj_set cleaned ''items'') (f i))
          else Some cleaned
      | None \<Rightarrow> Some cleaned)"

text \<open>Lines 828-841.\<close>

definition cleanRequired :: "obj \<Rightarrow> obj" where
  "cleanRequired cleaned =
     (case obj_get cleaned ''required'' of
        Some r \<Rightarrow>
          if truthy r then
            (case r of
               JArray items \<Rightarrow>
                 (let kept = filter (\<lambda>item. case item of JString s \<Rightarrow> s \<noteq> [] | _ \<Rightarrow> False) items
                  in if kept = [] then obj_delete cleaned ''required''
                     else obj_set cleaned ''required'' (JArray kept))
             | _ \<Rightarrow> obj_delete cleaned ''required'')
          else cleaned
      | None \<Rightarrow> cleaned)"

text \<open>Lines 843-848, for one \<open>key\<close> of \<open>anyOf\<close>, \<open>oneOf\<close>, \<open>allOf\<close>.\<close>

definition cleanCombinator :: "(json \<Rightarrow> json option) \<Rightarrow> string \<Rightarrow> obj \<Rightarrow> obj option" where
  "cleanCombinator f key cleaned =
     (case obj_get cleaned key of
        Some (JArray vs) \<Rightarrow>
          map_option (\<lambda>vs'. obj_set cleaned key (JArray vs')) (those (map f vs))
      | _ \<Rightarrow> Some cleaned)"

text \<open>Lines 850-853.\<close>

definition cleanNot :: "(json \<Rightarrow> json option) \<Rightarrow> obj \<Rightarrow> obj option" where
  "cleanNot f cleaned =
     (case obj_get cleaned ''not'' of
        Some n \<Rightarrow> if truthy n then map_option (obj_set cleaned ''not'') (f n) else Some cleaned
      | None \<Rightarrow> Some cleaned)"

text \<open>Line 867: \<open>pattern.replace(/\\(?![\\\/bfnrt"'])/g, '\\\\')\<close> doubles every backslash
  that is not followed by one of \<open>\\ / b f n r t " '\<close>.\<close>

definition escapable :: "char list" where
  "escapable = [CHR 0x5C, CHR ''/'', CHR ''b'', CHR ''f'', CHR ''n'', CHR ''r'', CHR ''t'',
     CHR 0x22, CHR 0x27]"

fun escapeBackslashes :: "string \<Rightarrow> string" where
  "escapeBackslashes [] = []"
| "escapeBackslashes (c # cs) =
     (if c = CHR 0x5C \<and> (case cs of [] \<Rightarrow> True | d # ds \<Rightarrow> d \<notin> set escapable)
      then CHR 0x5C # CHR 0x5C # escapeBackslashes cs
      else c # escapeBackslashes cs)"

text \<open>Lines 855-875. \<open>validRegExp p\<close> says that \<open>new RegExp(p)\<close> does not throw.\<close>

definition fixPattern :: "(string \<Rightarrow> bool) \<Rightarrow> obj \<Rightarrow> obj" where
  "fixPattern validRegExp cleaned =
     (case obj_get cleaned ''pattern'' of
        Some (JString p) \<Rightarrow>
          if p \<noteq> [] then
            (if validRegExp p then cleaned
             else (let fixedPattern = escapeBackslashes p
                   in if validRegExp fixedPattern
                      then obj_set cleaned ''pattern'' (JString fixedPattern)
                      else obj_delete cleaned ''pattern''))
          else cleaned
      | _ \<Rightarrow> cleaned)"

text \<open>Lines 877-892, for one key. \<open>Some True\<close>: the key is deleted; \<open>None\<close>: the
  \<open>TypeError\<close> of \<open>Object.keys(null)\<close> at line 885.\<close>

definition removeEmptyKey :: "string \<Rightarrow> json \<Rightarrow> bool option" where
  "removeEmptyKey key v =
     (let gone = (v = JNull \<or> v = JString [])
      in if key \<noteq> ''properties'' \<and> key \<noteq> ''default'' then
           (if v = JNull then None
            else Some (gone \<or> v = JObject [] \<or> (v = JArray [] \<and> key \<noteq> ''enum'')))
         else Some gone)"

fun removeEmpty :: "obj \<Rightarrow> obj option" where
  "removeEmpty [] = Some []"
| "removeEmpty ((key, v) # rest) =
     do {
       gone \<leftarrow> removeEmptyKey key v;
       rest' \<leftarrow> removeEmpty rest;
       Some (if gone then rest' else (key, v) # rest')
     }"

lemma obj_get_set: "obj_get (obj_set c k v) k' = (if k' = k then Some v else obj_get c k')"
  by (simp add: obj_get_def obj_set_def update_conv')

lemma obj_get_delete: "obj_get (obj_delete c k) k' = (if k' = k then None else obj_get c k')"
  by (simp add: obj_get_def obj_delete_def delete_conv')

lemma obj_get_removeDisallowed:
  "obj_get (removeDisallowed c) k = (if k \<in> set allowedTopLevelProps then obj_get c k else None)"
  by (induction c) (auto simp: obj_get_def removeDisallowed_def)

lemma obj_get_spread_cases:
  "obj_get (obj_spread t s) k = Some v \<Longrightarrow> obj_get t k = Some v \<or> (k, v) \<in> set s"
proof (induction s arbitrary: t)
  case Nil
  then show ?case by (simp add: obj_spread_def)
next
  case (Cons e s)
  obtain k' v' where e: "e = (k', v')" by (cases e)
  from Cons.prems have "obj_get (obj_spread (obj_set t k' v') s) k = Some v"
    by (simp add: obj_spread_def e)
  from Cons.IH[OF this] show ?case
    by (auto simp: obj_get_set e split: if_splits)
qed

lemma size_entry: "(k, v) \<in> set kvs \<Longrightarrow> size v < size (JObject kvs)"
  by (induction kvs) auto

lemma size_elem: "v \<in> set vs \<Longrightarrow> size v < size (JArray vs)"
  by (induction vs) auto

lemma size_entries: "(k, v) \<in> set (entries p) \<Longrightarrow> size v < size p"
proof (cases p)
  case (JArray vs)
  assume "(k, v) \<in> set (entries p)"
  then have "v \<in> set vs" by (auto simp: JArray dest: set_zip_rightD)
  then show ?thesis unfolding JArray by (rule size_elem)
qed (auto dest: size_entry)

lemma obj_get_normalizeType:
  "obj_get (normalizeType c) k = Some v \<Longrightarrow> obj_get c k = Some v \<or> size v = 0"
  by (auto simp: normalizeType_def obj_get_set split: option.splits json.splits if_splits)

lemma obj_get_removeNullable:
  "obj_get (removeNullable c) k = Some v \<Longrightarrow> obj_get c k = Some v"
  by (auto simp: removeNullable_def obj_get_delete split: if_splits)

lemma size_prepared:
  assumes "obj_get (removeNullable (normalizeType (removeDisallowed
             (obj_delete (obj_spread [] (entries schema)) ''$schema'')))) k = Some v"
    and "typeof_object schema" "truthy schema"
  shows "size v < size schema"
proof -
  from assms(2,3) have pos: "0 < size schema" by (cases schema) auto
  from assms(1) have "obj_get (normalizeType (removeDisallowed
             (obj_delete (obj_spread [] (entries schema)) ''$schema''))) k = Some v"
    by (rule obj_get_removeNullable)
  then consider "size v = 0"
    | "obj_get (removeDisallowed (obj_delete (obj_spread [] (entries schema)) ''$schema'')) k = Some v"
    by (auto dest: obj_get_normalizeType)
  then show ?thesis
  proof cases
    case 1
    with pos show ?thesis by simp
  next
    case 2
    then have "obj_get (obj_spread [] (entries schema)) k = Some v"
      by (auto simp: obj_get_removeDisallowed obj_get_delete split: if_splits)
    then have "obj_get [] k = Some v \<or> (k, v) \<in> set (entries schema)"
      by (rule obj_get_spread_cases)
    then have "(k, v) \<in> set (entries schema)"
      by (simp add: obj_get_def)
    then show ?thesis by (rule size_entries)
  qed
qed

lemma cleanProperties_frame:
  "cleanProperties f c = Some c' \<Longrightarrow> \<forall>k. k \<noteq> ''properties'' \<longrightarrow> obj_get c' k = obj_get c k"
  by (auto simp: cleanProperties_def obj_get_set split: option.splits if_splits)

lemma cleanItems_frame:
  "cleanItems f c = Some c' \<Longrightarrow> \<forall>k. k \<noteq> ''items'' \<longrightarrow> obj_get c' k = obj_get c k"
  by (auto simp: cleanItems_def obj_get_set split: option.splits if_splits json.splits)

lemma cleanCombinator_frame:
  "cleanCombinator f key c = Some c' \<Longrightarrow> \<forall>k. k \<noteq> key \<longrightarrow> obj_get c' k = obj_get c k"
  by (auto simp: cleanCombinator_def obj_get_set split: option.splits if_splits json.splits)

lemma cleanNot_frame:
  "cleanNot f c = Some c' \<Longrightarrow> \<forall>k. k \<noteq> ''not'' \<longrightarrow> obj_get c' k = obj_get c k"
  by (auto simp: cleanNot_def obj_get_set split: option.splits if_splits)

lemma obj_get_onlyArrayItems:
  "obj_get (onlyArrayItems c) k = Some v \<Longrightarrow> obj_get c k = Some v"
  by (auto simp: onlyArrayItems_def obj_get_delete split: option.splits if_splits)

lemma obj_get_cleanRequired:
  "k \<noteq> ''required'' \<Longrightarrow> obj_get (cleanRequired c) k = obj_get c k"
  by (auto simp: cleanRequired_def obj_get_delete obj_get_set Let_def split: option.splits json.splits)

lemma cleanProperties_cong [fundef_cong]:
  assumes "cleaned = cleaned'"
    and "\<And>p key v. obj_get cleaned' ''properties'' = Some p \<Longrightarrow> (key, v) \<in> set (entries p) \<Longrightarrow> f v = g v"
  shows "cleanProperties f cleaned = cleanProperties g cleaned'"
proof (cases "obj_get cleaned' ''properties''")
  case None
  then show ?thesis by (simp add: cleanProperties_def assms(1))
next
  case (Some p)
  have eq: "map (\<lambda>(key, v). map_option (Pair key) (f v)) (entries p)
      = map (\<lambda>(key, v). map_option (Pair key) (g v)) (entries p)"
    by (rule map_cong) (auto simp: assms(2)[OF Some])
  show ?thesis by (simp add: cleanProperties_def assms(1) Some eq)
qed

lemma cleanItems_cong [fundef_cong]:
  assumes "cleaned = cleaned'"
    and "\<And>i. obj_get cleaned' ''items'' = Some i \<Longrightarrow> truthy i \<Longrightarrow> f i = g i"
    and "\<And>vs v. obj_get cleaned' ''items'' = Some (JArray vs) \<Longrightarrow> v \<in> set vs \<Longrightarrow> f v = g v"
  shows "cleanItems f cleaned = cleanItems g cleaned'"
proof (cases "obj_get cleaned' ''items''")
  case None
  then show ?thesis by (simp add: cleanItems_def assms(1))
next
  case (Some i)
  show ?thesis
  proof (cases i)
    case (JArray vs)
    have eq: "map f vs = map g vs"
      by (rule map_cong) (auto simp: assms(3)[OF Some[unfolded JArray]])
    show ?thesis by (simp add: cleanItems_def assms(1) Some JArray eq)
  qed (use assms(2)[OF Some] in \<open>auto simp: cleanItems_def assms(1) Some\<close>)
qed

lemma cleanCombinator_cong [fundef_cong]:
  assumes "cleaned = cleaned'" and "key = key'"
    and "\<And>vs v. obj_get cleaned' key' = Some (JArray vs) \<Longrightarrow> v \<in> set vs \<Longrightarrow> f v = g v"
  shows "cleanCombinator f key cleaned = cleanCombinator g key' cleaned'"
proof (cases "obj_get cleaned' key'")
  case None
  then show ?thesis by (simp add: cleanCombinator_def assms(1,2))
next
  case (Some i)
  show ?thesis
  proof (cases i)
    case (JArray vs)
    have eq: "map f vs = map g vs"
      by (rule map_cong) (auto simp: assms(3)[OF Some[unfolded JArray]])
    show ?thesis by (simp add: cleanCombinator_def assms(1,2) Some JArray eq)
  qed (auto simp: cleanCombinator_def assms(1,2) Some)
qed

lemma cleanNot_cong [fundef_cong]:
  assumes "cleaned = cleaned'"
    and "\<And>n. obj_get cleaned' ''not'' = Some n \<Longrightarrow> truthy n \<Longrightarrow> f n = g n"
  shows "cleanNot f cleaned = cleanNot g cleaned'"
  unfolding cleanNot_def assms(1) using assms(2)
  by (auto split: option.splits)

declare Option.bind_cong [fundef_cong]

function cleanJsonSchema :: "(string \<Rightarrow> bool) \<Rightarrow> json \<Rightarrow> json option" where
  "cleanJsonSchema validRegExp schema =
     (if \<not> truthy schema \<or> \<not> typeof_object schema then Some schema
      else do {
        let cleaned = obj_spread [] (entries schema);
        let cleaned = obj_delete cleaned ''$schema'';
        let cleaned = removeDisallowed cleaned;
        let cleaned = normalizeType cleaned;
        let cleaned = removeNullable cleaned;
        cleaned \<leftarrow> cleanProperties (cleanJsonSchema validRegExp) cleaned;
        let cleaned = onlyArrayItems cleaned;
        cleaned \<leftarrow> cleanItems (cleanJsonSchema validRegExp) cleaned;
        let cleaned = cleanRequired cleaned;
        cleaned \<leftarrow> cleanCombinator (cleanJsonSchema validRegExp) ''anyOf'' cleaned;
        cleaned \<leftarrow> cleanCombinator (cleanJsonSchema validRegExp) ''oneOf'' cleaned;
        cleaned \<leftarrow> cleanCombinator (cleanJsonSchema validRegExp) ''allOf'' cleaned;
        cleaned \<leftarrow> cleanNot (cleanJsonSchema validRegExp) cleaned;
        let cleaned = fixPattern validRegExp cleaned;
        cleaned \<leftarrow> removeEmpty cleaned;
        Some (JObject cleaned)
      })"
  by pat_completeness auto
termination
proof (relation "measure (\<lambda>(r, s). size s)", goal_cases)
  case 1
  show ?case by simp
next
  case 2
  then show ?case by (auto dest!: size_prepared size_entries)
next
  case 3
  then show ?case
    by (auto dest!: cleanProperties_frame obj_get_onlyArrayItems dest!: size_prepared)
next
  case 4
  then show ?case
    by (auto dest!: cleanProperties_frame obj_get_onlyArrayItems dest!: size_prepared size_elem)
next
  case 5
  then show ?case
    by (auto dest!: cleanProperties_frame cleanItems_frame obj_get_onlyArrayItems
        simp: obj_get_cleanRequired dest!: size_prepared size_elem)
next
  case 6
  then show ?case
    by (auto dest!: cleanProperties_frame cleanItems_frame cleanCombinator_frame obj_get_onlyArrayItems
        simp: obj_get_cleanRequired dest!: size_prepared size_elem)
next
  case 7
  then show ?case
    by (auto dest!: cleanProperties_frame cleanItems_frame cleanCombinator_frame obj_get_onlyArrayItems
        simp: obj_get_cleanRequired dest!: size_prepared size_elem)
next
  case 8
  then show ?case
    by (auto dest!: cleanProperties_frame cleanItems_frame cleanCombinator_frame obj_get_onlyArrayItems
        simp: obj_get_cleanRequired dest!: size_prepared size_elem)
qed

declare cleanJsonSchema.simps [simp del]


section \<open>The provider adapter: convertToolsToAnthropic\<close>

text \<open>A tool as the request carries it. \<open>None\<close> is an absent (\<open>undefined\<close>) property.\<close>

record tool =
  name :: string
  description :: "string option"
  input_schema :: "json option"

record converted_tool =
  c_name :: string
  c_description :: string
  c_input_schema :: json

definition defaultSchema :: json where
  "defaultSchema = JObject [(''type'', JString ''object''), (''properties'', JObject [])]"

text \<open>\<open>String.prototype.includes\<close>.\<close>

fun str_includes :: "string \<Rightarrow> string \<Rightarrow> bool" where
  "str_includes [] sub = (sub = [])"
| "str_includes (c # cs) sub = (take (length sub) (c # cs) = sub \<or> str_includes cs sub)"

text \<open>Lines 687-691: \<open>cleanedSchema.$schema && cleanedSchema.$schema.includes('draft-07')\<close>.
  A truthy \<open>$schema\<close> that is neither a string nor an array has no \<open>includes\<close>: the call
  throws.\<close>

definition removeDraft07 :: "json \<Rightarrow> json option" where
  "removeDraft07 cleanedSchema =
     (case cleanedSchema of
        JObject c \<Rightarrow>
          (case obj_get c ''$schema'' of
             Some s \<Rightarrow>
               if truthy s then
                 (case s of
                    JString str \<Rightarrow>
                      Some (if str_includes str ''draft-07''
                            then JObject (obj_delete c ''$schema'') else cleanedSchema)
                  | JArray vs \<Rightarrow>
                      Some (if JString ''draft-07'' \<in> set vs
                            then JObject (obj_delete c ''$schema'') else cleanedSchema)
                  | _ \<Rightarrow> None)
               else Some cleanedSchema
           | None \<Rightarrow> Some cleanedSchema)
      | _ \<Rightarrow> Some cleanedSchema)"

text \<open>Lines 693-696: \<open>if (!cleanedSchema.type) cleanedSchema.type = 'object'\<close>. The file is
  an ES module, so the code is strict: the assignment to a property of a primitive
  (a number, \<open>true\<close>, a string) throws a \<open>TypeError\<close>. A property set on an array is
  not one of its elements.\<close>

definition ensureType :: "json \<Rightarrow> json option" where
  "ensureType cleanedSchema =
     (case cleanedSchema of
        JObject c \<Rightarrow>
          (case obj_get c ''type'' of
             Some t \<Rightarrow>
               if truthy t then Some cleanedSchema
               else Some (JObject (obj_set c ''type'' (JString ''object'')))
           | None \<Rightarrow> Some (JObject (obj_set c ''type'' (JString ''object''))))
      | JArray vs \<Rightarrow> Some cleanedSchema
      | _ \<Rightarrow> None)"

text \<open>Lines 673-703, the body of \<open>tools.map\<close> for one tool.\<close>

definition convertTool :: "(string \<Rightarrow> bool) \<Rightarrow> tool \<Rightarrow> converted_tool option" where
  "convertTool validRegExp t =
     (let inputSchema =
            (case input_schema t of
               None \<Rightarrow> defaultSchema
             | Some s \<Rightarrow>
                 if \<not> truthy s \<or> (typeof_object s \<and> entries s = []) then defaultSchema else s)
      in do {
        cleanedSchema \<leftarrow> cleanJsonSchema validRegExp inputSchema;
        cleanedSchema \<leftarrow> removeDraft07 cleanedSchema;
        cleanedSchema \<leftarrow> ensureType cleanedSchema;
        Some \<lparr>c_name = name t,
              c_description =
                (case description t of
                   Some d \<Rightarrow> if d \<noteq> [] then d else name t
                 | None \<Rightarrow> name t),
              c_input_schema = cleanedSchema\<rparr>
      })"

text \<open>Lines 705-715: the loop over \<open>convertedTools\<close>. \<open>uniqueTools\<close> is the \<open>Map\<close>, in
  insertion order; \<open>duplicates\<close> collects the names that are only logged.\<close>

fun dedupLoop ::
  "converted_tool list \<Rightarrow> (string \<times> converted_tool) list \<Rightarrow> string list
     \<Rightarrow> (string \<times> converted_tool) list \<times> string list" where
  "dedupLoop [] uniqueTools duplicates = (uniqueTools, duplicates)"
| "dedupLoop (t # ts) uniqueTools duplicates =
     (if map_of uniqueTools (c_name t) \<noteq> None
      then dedupLoop ts uniqueTools (duplicates @ [c_name t])
      else dedupLoop ts (uniqueTools @ [(c_name t, t)]) duplicates)"

definition convertToolsToAnthropic ::
  "(string \<Rightarrow> bool) \<Rightarrow> tool list \<Rightarrow> converted_tool list option" where
  "convertToolsToAnthropic validRegExp tools =
     do {
       convertedTools \<leftarrow> those (map (convertTool validRegExp) tools);
       let (uniqueTools, duplicates) = dedupLoop convertedTools [] [];
       Some (map snd uniqueTools)
     }"

section \<open>The request\<close>

record oauth_credential =
  accessToken :: string
  accountId :: string
  credentialName :: string

text \<open>\<open>oauth\<close> is a \<open>Record\<close>: its entries stand in the order of \<open>Object.keys\<close>.\<close>

record credentials =
  oauth :: "(string \<times> oauth_credential) list"
  apiKeys :: "string list"

datatype role = User | Assistant

datatype result_content = ResultJson "json option" | ResultError "string option"

text \<open>Content blocks. \<open>'i\<close> is what a \<open>tool_use\<close> block holds as its input: the object
  itself where a conversation is looked at, its address where it lives in the store.\<close>

datatype 'i block =
    Text string
  | Thinking string
  | ToolUse string string 'i
  | ToolResult string result_content
  | OtherBlock string

datatype 'i content = Plain string | Blocks "'i block list"

datatype 'i message = Message role "'i content"

record request =
  message :: string
  workflowId :: string
  userId :: string
  tools :: "tool list option"
  baseTools :: "tool list option"
  credentials :: "credentials option"
  conversationHistory :: "obj message list option"

section \<open>Trimming the tool set (createAnthropicStream, lines 1051-1082)\<close>

definition MAX_TOOLS :: nat where
  "MAX_TOOLS = 100"

text \<open>\<open>x || []\<close> for an optional array.\<close>

definition orEmpty :: "'a list option \<Rightarrow> 'a list" where
  "orEmpty x = (case x of None \<Rightarrow> [] | Some xs \<Rightarrow> xs)"

definition toolsToConvert :: "request \<Rightarrow> tool list" where
  "toolsToConvert req =
     (let base = orEmpty (baseTools req);
          regular = orEmpty (tools req);
          allTools = base @ regular
      in if length allTools > MAX_TOOLS then
           (let baseToolsCount = length base;
                remainingSlots = int MAX_TOOLS - int baseToolsCount
            in if remainingSlots > 0 then base @ take (nat remainingSlots) regular
               else take MAX_TOOLS base)
         else allTools)"


section \<open>The tool dispatcher: executeToolCall\<close>

text \<open>
  The input object of a \<open>tool_use\<close> block is shared: the block in the assistant turn
  and the \<open>toolInput\<close> parameter of \<open>executeToolCall\<close> are the same JavaScript object.
  Such objects live in a store and are named by their address.
\<close>

type_synonym addr = nat

type_synonym store = "addr \<Rightarrow> obj"

text \<open>What a \<open>catch\<close> receives: an \<open>Error\<close> with its message, or any other value.\<close>

datatype thrown = ErrorObject string | NonError

record exec_result =
  success :: bool
  result :: "json option"
  error :: "string option"

record tool_response =
  r_success :: bool
  r_output :: "json option"
  r_error :: "string option"

text \<open>The \<open>ExecutionContext\<close> of lines 993-1011. Its other fields are empty containers
  and time stamps.\<close>

record exec_context =
  ctx_userId :: string
  ctx_workflowId :: string

text \<open>
  The tools are outside this repository's source: each is a parameter, a function from
  the arguments it is called with to the value it returns (\<open>Inr\<close>) or throws (\<open>Inl\<close>).
  \<open>evalCode\<close> stands for \<open>eval\<close> of the wrapped \<open>toolInput.code\<close>. What a tool returns is
  a JSON value (or \<open>undefined\<close>), so that \<open>JSON.stringify\<close> of a result (lines 1295 and
  1311) returns; a tool does not write to the input object it is given.
\<close>

record tool_env =
  evalCode :: "json option \<Rightarrow> thrown + json option"
  editWorkflow :: "obj \<Rightarrow> string \<Rightarrow> thrown + json option"
  getWorkflowConsole :: "obj \<Rightarrow> thrown + json option"
  getBlocksMetadata :: "obj \<Rightarrow> thrown + json option"
  getBlocksAndTools :: "obj \<Rightarrow> thrown + json option"
  executeTool :: "string \<Rightarrow> obj \<Rightarrow> exec_context \<Rightarrow> thrown + tool_response"

text \<open>The \<open>try ... catch\<close> around each privileged tool, with the branch's own fallback
  message.\<close>

definition caught :: "string \<Rightarrow> thrown + json option \<Rightarrow> exec_result" where
  "caught fallback r =
     (case r of
        Inr v \<Rightarrow> \<lparr>success = True, result = v, error = None\<rparr>
      | Inl (ErrorObject m) \<Rightarrow> \<lparr>success = False, result = None, error = Some m\<rparr>
      | Inl NonError \<Rightarrow> \<lparr>success = False, result = None, error = Some fallback\<rparr>)"

text \<open>Lines 1030-1041: what is returned from the tool's response, and the outer
  \<open>catch\<close>.\<close>

definition fromToolResponse :: "thrown + tool_response \<Rightarrow> exec_result" where
  "fromToolResponse r =
     (case r of
        Inr toolResponse \<Rightarrow>
          \<lparr>success = r_success toolResponse,
           result = (if r_success toolResponse then r_output toolResponse else None),
           error = (if r_success toolResponse then None else r_error toolResponse)\<rparr>
      | Inl (ErrorObject m) \<Rightarrow> \<lparr>success = False, result = None, error = Some m\<rparr>
      | Inl NonError \<Rightarrow>
          \<lparr>success = False, result = None, error = Some ''Unknown execution error''\<rparr>)"

text \<open>Lines 1013-1019.\<close>

definition addCredential :: "request \<Rightarrow> obj \<Rightarrow> obj" where
  "addCredential req toolInput =
     (case credentials req of
        Some c \<Rightarrow>
          (let oauthProviders = map fst (oauth c)
           in case oauthProviders of
                [] \<Rightarrow> toolInput
              | first # others \<Rightarrow> obj_set toolInput ''credential'' (JString first))
      | None \<Rightarrow> toolInput)"

text \<open>Lines 1021-1025.\<close>

definition addContext :: "request \<Rightarrow> obj \<Rightarrow> obj" where
  "addContext req toolInput =
     obj_set toolInput ''_context''
       (JObject [(''workflowId'', JString (workflowId req)), (''userId'', JString (userId req))])"

text \<open>\<open>executeToolCall\<close>, lines 897-1042. \<open>toolInput\<close> is the address of the input
  object; the store is returned as the call leaves it.\<close>

definition executeToolCall ::
  "tool_env \<Rightarrow> request \<Rightarrow> string \<Rightarrow> addr \<Rightarrow> store \<Rightarrow> exec_result \<times> store" where
  "executeToolCall env req toolName toolInput h =
     (if toolName = ''function_execute'' then
        (caught ''Code execution failed'' (evalCode env (obj_get (h toolInput) ''code'')), h)
      else if toolName = ''edit_workflow'' then
        (let args = obj_spread [(''workflowId'', JString (workflowId req))] (h toolInput)
         in (caught ''Workflow edit failed'' (editWorkflow env args (userId req)), h))
      else if toolName = ''get_workflow_console'' then
        (let args = obj_spread [(''workflowId'', JString (workflowId req))] (h toolInput)
         in (caught ''Failed to get workflow data'' (getWorkflowConsole env args), h))
      else if toolName = ''get_blocks_metadata'' then
        (caught ''Failed to get blocks metadata'' (getBlocksMetadata env (h toolInput)), h)
      else if toolName = ''get_blocks_and_tools'' then
        (caught ''Failed to get blocks and tools'' (getBlocksAndTools env []), h)
      else
        (let executionContext = \<lparr>ctx_userId = userId req, ctx_workflowId = workflowId req\<rparr>;
             h = h(toolInput := addCredential req (h toolInput));
             h = h(toolInput := addContext req (h toolInput))
         in (fromToolResponse (executeTool env toolName (h toolInput) executionContext), h)))"

section \<open>The conversation loop: createAnthropicStream\<close>

datatype event =
    EvStart string string string
  | EvReasoningStart
  | EvReasoning string
  | EvReasoningEnd int
  | EvContent string
  | EvToolCall string string obj bool
  | EvToolResult string string bool "json option" "string option"
  | EvError string string
  | EvDone "(string option \<times> nat \<times> nat) option"

text \<open>What the provider's stream does during one turn: the callbacks it fires, in
  order (\<open>OnText\<close> with the clock's reading), and whether \<open>finalMessage()\<close> resolves.\<close>

datatype callback =
    OnMessage "obj block list"
  | OnText string nat
  | OnError "string option"

record final_message =
  fm_content :: "obj block list"
  stop_reason :: "string option"
  usage :: "nat \<times> nat"

record turn =
  callbacks :: "callback list"
  outcome :: "thrown + final_message"

record provider_request =
  pr_model :: string
  pr_system :: string
  pr_messages :: "obj message list"
  pr_tools :: "converted_tool list option"

text \<open>The provider: its answer to the \<open>n\<close>-th request of the loop.\<close>

type_synonym provider = "nat \<Rightarrow> provider_request \<Rightarrow> turn"

text \<open>The variables of \<open>start(controller)\<close>, the events enqueued on the stream, and two
  logs of what the loop has done to the outside so far: \<open>requests\<close>, the arguments of the
  calls of \<open>client.messages.stream\<close> (line 1139) in order, and \<open>toolCalls\<close>, the number
  of calls of \<open>executeToolCall\<close> (line 1290).\<close>

record loop_state =
  conversationMessages :: "addr message list"
  heap :: store
  nextAddr :: addr
  continueLoop :: bool
  iterationCount :: nat
  events :: "event list"
  closed :: bool
  toolCalls :: nat
  requests :: "provider_request list"

definition maxIterations :: nat where
  "maxIterations = 10"

definition enqueue :: "event \<Rightarrow> loop_state \<Rightarrow> loop_state" where
  "enqueue e s = s\<lparr>events := events s @ [e]\<rparr>"

text \<open>Reading the conversation: every \<open>tool_use\<close> input as the store holds it now.\<close>

fun view_block :: "store \<Rightarrow> addr block \<Rightarrow> obj block" where
  "view_block h (ToolUse i n a) = ToolUse i n (h a)"
| "view_block h (Text t) = Text t"
| "view_block h (Thinking t) = Thinking t"
| "view_block h (ToolResult i c) = ToolResult i c"
| "view_block h (OtherBlock t) = OtherBlock t"

fun view_message :: "store \<Rightarrow> addr message \<Rightarrow> obj message" where
  "view_message h (Message r (Plain t)) = Message r (Plain t)"
| "view_message h (Message r (Blocks bs)) = Message r (Blocks (map (view_block h) bs))"

definition view :: "loop_state \<Rightarrow> obj message list" where
  "view s = map (view_message (heap s)) (conversationMessages s)"

text \<open>Placing the objects of freshly parsed blocks into the store.\<close>

fun alloc_blocks :: "obj block list \<Rightarrow> store \<Rightarrow> addr \<Rightarrow> addr block list \<times> store \<times> addr" where
  "alloc_blocks [] h n = ([], h, n)"
| "alloc_blocks (ToolUse i nm ob # bs) h n =
     (let (bs', h', n') = alloc_blocks bs (h(n := ob)) (Suc n)
      in (ToolUse i nm n # bs', h', n'))"
| "alloc_blocks (Text t # bs) h n =
     (let (bs', h', n') = alloc_blocks bs h n in (Text t # bs', h', n'))"
| "alloc_blocks (Thinking t # bs) h n =
     (let (bs', h', n') = alloc_blocks bs h n in (Thinking t # bs', h', n'))"
| "alloc_blocks (ToolResult i c # bs) h n =
     (let (bs', h', n') = alloc_blocks bs h n in (ToolResult i c # bs', h', n'))"
| "alloc_blocks (OtherBlock t # bs) h n =
     (let (bs', h', n') = alloc_blocks bs h n in (OtherBlock t # bs', h', n'))"

fun alloc_messages ::
  "obj message list \<Rightarrow> store \<Rightarrow> addr \<Rightarrow> addr message list \<times> store \<times> addr" where
  "alloc_messages [] h n = ([], h, n)"
| "alloc_messages (Message r (Plain t) # ms) h n =
     (let (ms', h', n') = alloc_messages ms h n in (Message r (Plain t) # ms', h', n'))"
| "alloc_messages (Message r (Blocks bs) # ms) h n =
     (let (bs', h1, n1) = alloc_blocks bs h n;
          (ms', h', n') = alloc_messages ms h1 n1
      in (Message r (Blocks bs') # ms', h', n'))"

text \<open>Lines 1134-1237: the handlers of the stream. The local state of one iteration is
  \<open>(currentContentBlocks, isInThinkingBlock, thinkingStartTime)\<close>.\<close>

type_synonym tracking = "obj block list \<times> bool \<times> nat option"

definition lastIsThinking :: "obj block list \<Rightarrow> bool" where
  "lastIsThinking bs =
     (case bs of [] \<Rightarrow> False | b # rest \<Rightarrow> (case last bs of Thinking t \<Rightarrow> True | _ \<Rightarrow> False))"

fun onCallback :: "callback \<Rightarrow> tracking \<times> loop_state \<Rightarrow> tracking \<times> loop_state" where
  "onCallback (OnMessage bs) ((cur, inThinking, started), s) = ((bs, inThinking, started), s)"
| "onCallback (OnText txt now) ((cur, inThinking, started), s) =
     (if lastIsThinking cur then
        (if \<not> inThinking
         then ((cur, True, Some now), enqueue (EvReasoning txt) (enqueue EvReasoningStart s))
         else ((cur, inThinking, started), enqueue (EvReasoning txt) s))
      else
        (if inThinking then
           (let duration = (case started of
                              Some t0 \<Rightarrow> if t0 \<noteq> 0 then int now - int t0 else 0
                            | None \<Rightarrow> 0)
            in ((cur, False, None), enqueue (EvContent txt) (enqueue (EvReasoningEnd duration) s)))
         else ((cur, inThinking, started), enqueue (EvContent txt) s)))"
| "onCallback (OnError m) (tr, s) =
     (tr, (enqueue (EvError (case m of Some e \<Rightarrow> if e \<noteq> [] then e else ''Stream error occurred''
                                     | None \<Rightarrow> ''Stream error occurred'')
                      ''Sorry, I encountered an error. Please try again.'') s)
            \<lparr>continueLoop := False\<rparr>)"

text \<open>Lines 1269-1318: the tool calls of one turn, one after the other, in the
  provider's order. \<open>env n\<close> are the tools as they behave at the \<open>n\<close>-th call.\<close>

fun isToolUse :: "'i block \<Rightarrow> bool" where
  "isToolUse (ToolUse i n a) = True"
| "isToolUse b = False"

fun runToolCalls ::
  "(nat \<Rightarrow> tool_env) \<Rightarrow> request \<Rightarrow> addr block list \<Rightarrow> addr block list \<Rightarrow> loop_state
     \<Rightarrow> addr block list \<times> loop_state" where
  "runToolCalls env req [] toolResults s = (toolResults, s)"
| "runToolCalls env req (ToolUse i nm a # rest) toolResults s =
     (let s = enqueue (EvToolCall i nm (heap s a) False) s;
          (executionResult, h) = executeToolCall (env (toolCalls s)) req nm a (heap s);
          s = s\<lparr>heap := h, toolCalls := Suc (toolCalls s)\<rparr>;
          s = enqueue (EvToolResult i nm (success executionResult) (result executionResult)
                         (error executionResult)) s;
          toolResults = toolResults @
            [ToolResult i (if success executionResult then ResultJson (result executionResult)
                           else ResultError (error executionResult))]
      in runToolCalls env req rest toolResults s)"
| "runToolCalls env req (b # rest) toolResults s = runToolCalls env req rest toolResults s"

text \<open>Lines 1128-1240: the request of one pass of the loop body, the callbacks of its
  stream, and what \<open>finalMessage()\<close> gives.\<close>

definition streamTurn ::
  "provider \<Rightarrow> string \<Rightarrow> string \<Rightarrow> converted_tool list \<Rightarrow> loop_state
     \<Rightarrow> (thrown + final_message) \<times> loop_state" where
  "streamTurn prov model systemPrompt anthropicTools s =
     (let s = s\<lparr>iterationCount := iterationCount s + 1\<rparr>;
          pr = \<lparr>pr_model = model, pr_system = systemPrompt, pr_messages = view s,
                pr_tools = (if length anthropicTools > 0 then Some anthropicTools else None)\<rparr>;
          s = s\<lparr>requests := requests s @ [pr]\<rparr>;
          t = prov (iterationCount s) pr;
          (tr, s) = fold onCallback (callbacks t) (([], False, None), s)
      in (outcome t, s))"

text \<open>Lines 1247-1346: the completed turn is inspected.\<close>

definition inspectTurn ::
  "(nat \<Rightarrow> tool_env) \<Rightarrow> request \<Rightarrow> final_message \<Rightarrow> loop_state \<Rightarrow> loop_state" where
  "inspectTurn env req finalMessage s =
     (if filter isToolUse (fm_content finalMessage) \<noteq> [] then
        (let (content, h, n) = alloc_blocks (fm_content finalMessage) (heap s) (nextAddr s);
             s = s\<lparr>heap := h, nextAddr := n,
                   conversationMessages :=
                     conversationMessages s @ [Message Assistant (Blocks content)]\<rparr>;
             (toolResults, s) = runToolCalls env req (filter isToolUse content) [] s
         in s\<lparr>conversationMessages :=
                 conversationMessages s @ [Message User (Blocks toolResults)]\<rparr>)
      else
        enqueue (EvDone (Some (stop_reason finalMessage, usage finalMessage)))
          (s\<lparr>continueLoop := False\<rparr>))"

text \<open>One pass of the loop body. \<open>Inl\<close>: \<open>finalMessage()\<close> rejected, and the exception
  leaves the loop for the \<open>catch\<close> of line 1367.\<close>

definition iteration ::
  "provider \<Rightarrow> (nat \<Rightarrow> tool_env) \<Rightarrow> request \<Rightarrow> string \<Rightarrow> string \<Rightarrow> converted_tool list
     \<Rightarrow> loop_state \<Rightarrow> thrown \<times> loop_state + loop_state" where
  "iteration prov env req model systemPrompt anthropicTools s =
     (case streamTurn prov model systemPrompt anthropicTools s of
        (Inl e, s) \<Rightarrow> Inl (e, s)
      | (Inr finalMessage, s) \<Rightarrow> Inr (inspectTurn env req finalMessage s))"

lemma iterationCount_enqueue: "iterationCount (enqueue e s) = iterationCount s"
  by (simp add: enqueue_def)

lemma iterationCount_onCallback:
  "iterationCount (snd (onCallback c ts)) = iterationCount (snd ts)"
  by (cases "(c, ts)" rule: onCallback.cases) (auto simp: iterationCount_enqueue Let_def)

lemma iterationCount_callbacks:
  "iterationCount (snd (fold onCallback cs ts)) = iterationCount (snd ts)"
  by (induction cs arbitrary: ts) (auto simp: iterationCount_onCallback)

lemma iterationCount_runToolCalls:
  "iterationCount (snd (runToolCalls env req bs rs s)) = iterationCount s"
  by (induction env req bs rs s rule: runToolCalls.induct)
     (auto simp: iterationCount_enqueue Let_def split: prod.splits)

lemma iterationCount_streamTurn:
  "iterationCount (snd (streamTurn prov model systemPrompt ts s)) = Suc (iterationCount s)"
  by (simp add: streamTurn_def Let_def split_beta iterationCount_callbacks)

lemma iterationCount_inspectTurn:
  "iterationCount (inspectTurn env req fm s) = iterationCount s"
proof (cases "filter isToolUse (fm_content fm) \<noteq> []")
  case True
  obtain content h n where al: "alloc_blocks (fm_content fm) (heap s) (nextAddr s) = (content, h, n)"
    by (cases "alloc_blocks (fm_content fm) (heap s) (nextAddr s)")
  define s3 where "s3 = s\<lparr>heap := h, nextAddr := n,
      conversationMessages := conversationMessages s @ [Message Assistant (Blocks content)]\<rparr>"
  have "iterationCount (snd (runToolCalls env req (filter isToolUse content) [] s3))
      = iterationCount s"
    by (simp add: iterationCount_runToolCalls s3_def)
  with True al show ?thesis
    by (simp add: inspectTurn_def Let_def s3_def split_beta)
next
  case False
  then show ?thesis
    by (simp add: inspectTurn_def enqueue_def)
qed

lemma iterationCount_iteration:
  assumes "iteration prov env req model systemPrompt ts s = Inr s'"
  shows "iterationCount s' = Suc (iterationCount s)"
proof -
  obtain r s1 where st: "streamTurn prov model systemPrompt ts s = (r, s1)"
    by (cases "streamTurn prov model systemPrompt ts s")
  then have "iterationCount s1 = Suc (iterationCount s)"
    using iterationCount_streamTurn[of prov model systemPrompt ts s] by simp
  with assms st show ?thesis
    by (cases r) (auto simp: iteration_def iterationCount_inspectTurn)
qed

text \<open>Line 1127: \<open>while (continueLoop && iterationCount < maxIterations)\<close>.\<close>

function toolLoop ::
  "provider \<Rightarrow> (nat \<Rightarrow> tool_env) \<Rightarrow> request \<Rightarrow> string \<Rightarrow> string \<Rightarrow> converted_tool list
     \<Rightarrow> loop_state \<Rightarrow> thrown \<times> loop_state + loop_state" where
  "toolLoop prov env req model systemPrompt anthropicTools s =
     (if continueLoop s \<and> iterationCount s < maxIterations then
        (case iteration prov env req model systemPrompt anthropicTools s of
           Inl x \<Rightarrow> Inl x
         | Inr s' \<Rightarrow> toolLoop prov env req model systemPrompt anthropicTools s')
      else Inr s)"
  by pat_completeness auto
termination
  by (relation "measure (\<lambda>(prov, env, req, model, systemPrompt, anthropicTools, s).
                  maxIterations - iterationCount s)")
     (auto dest: iterationCount_iteration)

declare toolLoop.simps [simp del]

definition maxIterationsError :: event where
  "maxIterationsError =
     EvError ''Max tool execution iterations reached''
       ''The conversation has reached the maximum number of tool executions.''"

text \<open>Lines 1089-1124: the state in which the loop starts. The history is the caller's
  array; the \<open>start\<close> event is on the stream and the user's message is appended.\<close>

definition openStream :: "request \<Rightarrow> string \<Rightarrow> string \<Rightarrow> loop_state" where
  "openStream req model systemPrompt =
     (let (history, h, n) = alloc_messages (orEmpty (conversationHistory req)) (\<lambda>a. []) 0;
          s = \<lparr>conversationMessages = history, heap = h, nextAddr = n, continueLoop = True,
               iterationCount = 0, events = [], closed = False, toolCalls = 0,
               requests = []\<rparr>;
          s = enqueue (EvStart model ''anthropic'' systemPrompt) s
      in s\<lparr>conversationMessages :=
              conversationMessages s @ [Message User (Plain (message req))]\<rparr>)"

text \<open>Lines 1349-1382: after the loop, or in the \<open>catch\<close> when an exception left it.\<close>

definition closeStream :: "thrown \<times> loop_state + loop_state \<Rightarrow> loop_state" where
  "closeStream r =
     (case r of
        Inr s \<Rightarrow>
          (let s = (if iterationCount s \<ge> maxIterations
                    then enqueue (EvDone None) (enqueue maxIterationsError s)
                    else s)
           in s\<lparr>closed := True\<rparr>)
      | Inl (e, s) \<Rightarrow>
          (let s = enqueue
                     (EvError (case e of ErrorObject m \<Rightarrow> m | NonError \<Rightarrow> ''Unknown error'')
                        ''Sorry, I encountered an error. Please try again.'') s;
               s = enqueue (EvDone None) s
           in s\<lparr>closed := True\<rparr>))"

text \<open>\<open>createAnthropicStream\<close>, lines 1044-1393: the stream as it stands when the
  controller has closed it. \<open>None\<close>: the conversion of the tools threw, before any
  stream existed. \<open>systemPrompt\<close> is what \<open>buildSystemPrompt\<close> returned.\<close>

definition createAnthropicStream ::
  "(string \<Rightarrow> bool) \<Rightarrow> provider \<Rightarrow> (nat \<Rightarrow> tool_env) \<Rightarrow> request \<Rightarrow> string \<Rightarrow> string
     \<Rightarrow> loop_state option" where
  "createAnthropicStream validRegExp prov env req model systemPrompt =
     do {
       anthropicTools \<leftarrow> convertToolsToAnthropic validRegExp (toolsToConvert req);
       Some (closeStream
               (toolLoop prov env req model systemPrompt anthropicTools
                  (openStream req model systemPrompt)))
     }"

section \<open>Examples used to instantiate the theorems\<close>

definition exampleTool :: "nat \<Rightarrow> tool" where
  "exampleTool i = \<lparr>name = string_of_nat i, description = None, input_schema = None\<rparr>"

definition exampleRequest :: request where
  "exampleRequest =
     \<lparr>message = ''hi'', workflowId = ''wf-1'', userId = ''user-1'',
      tools = Some (map exampleTool [20..<150]), baseTools = Some (map exampleTool [0..<20]),
      credentials = None, conversationHistory = None\<rparr>"

text \<open>The same request, but the last base tool is also the first of the other tools:
  the other tools are those numbered 19 to 148. The conversion of an example tool.\<close>

definition overlappingRequest :: request where
  "overlappingRequest =
     \<lparr>message = ''hi'', workflowId = ''wf-1'', userId = ''user-1'',
      tools = Some (map exampleTool [19..<149]), baseTools = Some (map exampleTool [0..<20]),
      credentials = None, conversationHistory = None\<rparr>"

definition convertedExample :: "nat \<Rightarrow> converted_tool" where
  "convertedExample i =
     \<lparr>c_name = string_of_nat i, c_description = string_of_nat i, c_input_schema = defaultSchema\<rparr>"

definition exampleCredential :: oauth_credential where
  "exampleCredential = \<lparr>accessToken = ''token'', accountId = ''account'', credentialName = ''work''\<rparr>"

definition twoCredentialsRequest :: request where
  "twoCredentialsRequest =
     \<lparr>message = ''send it'', workflowId = ''wf-1'', userId = ''user-1'',
      tools = None, baseTools = None,
      credentials = Some \<lparr>oauth = [(''google'', exampleCredential), (''slack'', exampleCredential)],
                              apiKeys = []\<rparr>,
      conversationHistory = None\<rparr>"

text \<open>Tools that answer with the very arguments they were called with.\<close>

definition echoEnv :: tool_env where
  "echoEnv =
     \<lparr>evalCode = (\<lambda>code. Inr code),
      editWorkflow = (\<lambda>args uid. Inr (Some (JObject args))),
      getWorkflowConsole = (\<lambda>args. Inr (Some (JObject args))),
      getBlocksMetadata = (\<lambda>args. Inr (Some (JObject args))),
      getBlocksAndTools = (\<lambda>args. Inr (Some (JObject args))),
      executeTool = (\<lambda>nm args ctx.
         Inr \<lparr>r_success = True, r_output = Some (JObject args), r_error = None\<rparr>)\<rparr>"

text \<open>A regular-expression engine for which only \<open>[a-z\<close> fails to compile.\<close>

definition exampleRegExp :: "string \<Rightarrow> bool" where
  "exampleRegExp p = (p \<noteq> ''[a-z'')"

definition duplicatedTools :: "tool list" where
  "duplicatedTools =
     [\<lparr>name = ''search'', description = Some ''first'', input_schema = None\<rparr>,
      \<lparr>name = ''fetch'', description = None, input_schema = None\<rparr>,
      \<lparr>name = ''search'', description = Some ''second'', input_schema = None\<rparr>]"

definition convertedSearch :: "string \<Rightarrow> converted_tool" where
  "convertedSearch d = \<lparr>c_name = ''search'', c_description = d, c_input_schema = defaultSchema\<rparr>"

definition convertedFetch :: converted_tool where
  "convertedFetch = \<lparr>c_name = ''fetch'', c_description = ''fetch'', c_input_schema = defaultSchema\<rparr>"

definition smallRequest :: request where
  "smallRequest =
     \<lparr>message = ''hi'', workflowId = ''wf-1'', userId = ''user-1'',
      tools = None, baseTools = None, credentials = None, conversationHistory = None\<rparr>"

definition toolTurn :: turn where
  "toolTurn =
     \<lparr>callbacks = [],
      outcome = Inr \<lparr>fm_content = [ToolUse ''call-1'' ''search'' []],
                     stop_reason = Some ''tool_use'', usage = (10, 5)\<rparr>\<rparr>"

definition plainTurn :: turn where
  "plainTurn =
     \<lparr>callbacks = [OnText ''Done.'' 7],
      outcome = Inr \<lparr>fm_content = [Text ''Done.''],
                     stop_reason = Some ''end_turn'', usage = (12, 3)\<rparr>\<rparr>"

text \<open>A provider that asks for a tool in every turn, and one that stops asking in its
  \<open>k\<close>-th turn.\<close>

definition insistentProvider :: provider where
  "insistentProvider n pr = toolTurn"

definition providerDoneAt :: "nat \<Rightarrow> provider" where
  "providerDoneAt k n pr = (if n < k then toolTurn else plainTurn)"

text \<open>A schema whose \<open>type\<close> is the union \<open>["string", "null"]\<close>, one whose \<open>type\<close> is
  an unknown name, and one whose \<open>type\<close> is an empty object.\<close>

definition unionTypeSchema :: json where
  "unionTypeSchema = JObject [(''type'', JArray [JString ''string'', JString ''null''])]"

definition unknownTypeSchema :: obj where
  "unknownTypeSchema =
     [(''type'', JString ''text''), (''pattern'', JString ''[a-z''), (''x-order'', JNum 1)]"

definition emptyTypeSchema :: json where
  "emptyTypeSchema = JObject [(''type'', JObject [])]"

definition nestedSchema :: json where
  "nestedSchema =
     JObject [(''type'', JString ''array''),
              (''items'', JObject unknownTypeSchema),
              (''required'', JArray [JString [], JString ''id'']),
              (''nullable'', JBool True)]"

definition nestedSchemaCleaned :: json where
  "nestedSchemaCleaned =
     JObject [(''type'', JString ''array''),
              (''items'', JObject [(''type'', JString ''string'')]),
              (''required'', JArray [JString ''id''])]"

section \<open>The dispatcher\<close>

definition privilegedTools :: "string list" where
  "privilegedTools =
     [''function_execute'', ''edit_workflow'', ''get_workflow_console'',
      ''get_blocks_metadata'', ''get_blocks_and_tools'']"

lemma obj_get_Nil: "obj_get [] k = None"
  by (simp add: obj_get_def)

lemma obj_get_spread_other:
  "k \<notin> fst ` set src \<Longrightarrow> obj_get (obj_spread target src) k = obj_get target k"
proof (induction src arbitrary: target)
  case Nil
  then show ?case by (simp add: obj_spread_def)
next
  case (Cons e src)
  obtain k' v' where e: "e = (k', v')" by (cases e)
  from Cons.prems have "k \<noteq> k'" and "k \<notin> fst ` set src" by (auto simp: e)
  with Cons.IH[of "obj_set target k' v'"] show ?case
    by (simp add: obj_spread_def e obj_get_set)
qed

lemma obj_get_spread_distinct:
  assumes "distinct (map fst src)" and "obj_get src k = Some v"
  shows "obj_get (obj_spread target src) k = Some v"
  using assms
proof (induction src arbitrary: target)
  case Nil
  then show ?case by (simp add: obj_get_def)
next
  case (Cons e src)
  obtain k' v' where e: "e = (k', v')" by (cases e)
  show ?case
  proof (cases "k = k'")
    case True
    with Cons.prems have "v = v'" and "k \<notin> fst ` set src"
      by (auto simp: e obj_get_def)
    then have "obj_get (obj_spread (obj_set target k' v') src) k = Some v"
      using True by (simp add: obj_get_spread_other obj_get_set)
    then show ?thesis by (simp add: obj_spread_def e)
  next
    case False
    with Cons.prems have "distinct (map fst src)" and "obj_get src k = Some v"
      by (auto simp: e obj_get_def)
    from Cons.IH[OF this, of "obj_set target k' v'"] show ?thesis
      by (simp add: obj_spread_def e)
  qed
qed

lemma obj_get_absent: "obj_get src k = None \<Longrightarrow> k \<notin> fst ` set src"
  by (simp add: obj_get_def map_of_eq_None_iff)

lemma executeToolCall_registry:
  assumes "toolName \<notin> set privilegedTools"
  shows "executeToolCall env req toolName a h =
           (fromToolResponse
              (executeTool env toolName (addContext req (addCredential req (h a)))
                 \<lparr>ctx_userId = userId req, ctx_workflowId = workflowId req\<rparr>),
            h(a := addContext req (addCredential req (h a))))"
  using assms by (simp add: executeToolCall_def privilegedTools_def Let_def)

text \<open>
  C10. \<open>edit_workflow\<close> and \<open>get_workflow_console\<close> are called with the arguments
  \<open>{workflowId: request.workflowId, ...toolInput}\<close>: a \<open>workflowId\<close> of the tool input
  overrides the request's, which is used only when the tool input has none.
\<close>

theorem workflowId_of_tool_input_wins:
  assumes "distinct (map fst (h a))"
  shows "\<exists>args.
           executeToolCall env req ''edit_workflow'' a h =
             (caught ''Workflow edit failed'' (editWorkflow env args (userId req)), h)
         \<and> executeToolCall env req ''get_workflow_console'' a h =
             (caught ''Failed to get workflow data'' (getWorkflowConsole env args), h)
         \<and> obj_get args ''workflowId'' =
             (case obj_get (h a) ''workflowId'' of
                Some w \<Rightarrow> Some w
              | None \<Rightarrow> Some (JString (workflowId req)))"
proof -
  let ?args = "obj_spread [(''workflowId'', JString (workflowId req))] (h a)"
  have "obj_get ?args ''workflowId'' =
          (case obj_get (h a) ''workflowId'' of
             Some w \<Rightarrow> Some w
           | None \<Rightarrow> Some (JString (workflowId req)))"
  proof (cases "obj_get (h a) ''workflowId''")
    case None
    then have "obj_get ?args ''workflowId''
        = obj_get [(''workflowId'', JString (workflowId req))] ''workflowId''"
      by (intro obj_get_spread_other obj_get_absent)
    with None show ?thesis
      by (simp add: obj_get_def)
  next
    case (Some w)
    with assms show ?thesis
      by (simp add: obj_get_spread_distinct)
  qed
  then show ?thesis
    by (intro exI[of _ ?args]) (simp add: executeToolCall_def Let_def)
qed

theorem workflowId_of_tool_input_wins_witness:
  "distinct (map fst [(''workflowId'', JString ''wf-2'')])
   \<and> fst (executeToolCall echoEnv exampleRequest ''edit_workflow'' 0
            (\<lambda>a. [(''workflowId'', JString ''wf-2'')]))
       = \<lparr>success = True, result = Some (JObject [(''workflowId'', JString ''wf-2'')]),
          error = None\<rparr>"
proof -
  have d: "distinct (map fst ((\<lambda>a::addr. [(''workflowId'', JString ''wf-2'')]) 0))"
    by simp
  from workflowId_of_tool_input_wins[OF d, of echoEnv exampleRequest]
  show ?thesis
    by (simp add: echoEnv_def caught_def executeToolCall_def obj_spread_def obj_set_def)
qed

text \<open>
  C2, as the code has it. A tool of the general registry is executed with the tool
  input to which the dispatcher has written the \<open>credential\<close> field: the first key of
  the OAuth credential set whenever the set has at least one entry, whatever their
  number; with no entry, or no credential set, the field stays as the tool input had it.
\<close>

theorem credential_is_first_oauth_key:
  assumes "toolName \<notin> set privilegedTools"
  shows "\<exists>input'.
           executeToolCall env req toolName a h =
             (fromToolResponse
                (executeTool env toolName input'
                   \<lparr>ctx_userId = userId req, ctx_workflowId = workflowId req\<rparr>),
              h(a := input'))
         \<and> obj_get input' ''credential'' =
             (case credentials req of
                None \<Rightarrow> obj_get (h a) ''credential''
              | Some c \<Rightarrow>
                  (case oauth c of
                     [] \<Rightarrow> obj_get (h a) ''credential''
                   | (first, cred) # others \<Rightarrow> Some (JString first)))"
proof -
  let ?input = "addContext req (addCredential req (h a))"
  have "obj_get ?input ''credential'' =
          (case credentials req of
             None \<Rightarrow> obj_get (h a) ''credential''
           | Some c \<Rightarrow>
               (case oauth c of
                  [] \<Rightarrow> obj_get (h a) ''credential''
                | (first, cred) # others \<Rightarrow> Some (JString first)))"
    by (auto simp: addContext_def addCredential_def obj_get_set split: option.splits list.splits)
  with executeToolCall_registry[OF assms] show ?thesis
    by blast
qed

theorem credential_is_first_oauth_key_witness:
  "''gmail_send'' \<notin> set privilegedTools
   \<and> executeToolCall echoEnv twoCredentialsRequest ''gmail_send'' 0 (\<lambda>a. []) =
       (\<lparr>success = True,
         result = Some (JObject [(''credential'', JString ''google''),
                    (''_context'', JObject [(''workflowId'', JString ''wf-1''),
                                            (''userId'', JString ''user-1'')])]),
         error = None\<rparr>,
        (\<lambda>a. [])(0 := [(''credential'', JString ''google''),
                    (''_context'', JObject [(''workflowId'', JString ''wf-1''),
                                            (''userId'', JString ''user-1'')])]))"
proof -
  have p: "''gmail_send'' \<notin> set privilegedTools"
    by (simp add: privilegedTools_def)
  from credential_is_first_oauth_key[OF p, of echoEnv twoCredentialsRequest 0 "\<lambda>a. []"] p
  show ?thesis
    by (simp add: executeToolCall_def privilegedTools_def Let_def echoEnv_def fromToolResponse_def
        addContext_def addCredential_def twoCredentialsRequest_def obj_set_def)
qed

text \<open>
  C2 as the spec states it fails: with two OAuth associations the \<open>credential\<close> field
  of an empty tool input is not left untouched, it becomes the first key.
\<close>

theorem two_credentials_counterexample:
  "obj_get ((\<lambda>a. []) (0::addr)) ''credential'' = None
   \<and> obj_get (snd (executeToolCall echoEnv twoCredentialsRequest ''gmail_send'' 0 (\<lambda>a. [])) 0)
        ''credential'' = Some (JString ''google'')"
  by (simp add: executeToolCall_def Let_def echoEnv_def fromToolResponse_def
      addContext_def addCredential_def twoCredentialsRequest_def obj_set_def obj_get_def)

text \<open>
  C3, as the code has it. A tool of the general registry is executed with a tool input
  that carries \<open>_context = {workflowId, userId}\<close> of the request. The five privileged
  tools return before that: \<open>function_execute\<close> is given the \<open>code\<close> of the input,
  \<open>edit_workflow\<close> and \<open>get_workflow_console\<close> a copy of the input over a default
  \<open>workflowId\<close> (the former also the user identifier, as a second argument),
  \<open>get_blocks_metadata\<close> the input as it is, \<open>get_blocks_and_tools\<close> an empty object,
  and none of them changes the tool input.
\<close>

theorem context_injected_for_registry_tools:
  "(toolName \<notin> set privilegedTools \<longrightarrow>
      (\<exists>input'.
          executeToolCall env req toolName a h =
            (fromToolResponse
               (executeTool env toolName input'
                  \<lparr>ctx_userId = userId req, ctx_workflowId = workflowId req\<rparr>),
             h(a := input'))
        \<and> obj_get input' ''_context'' =
            Some (JObject [(''workflowId'', JString (workflowId req)),
                           (''userId'', JString (userId req))])))
   \<and> executeToolCall env req ''function_execute'' a h =
       (caught ''Code execution failed'' (evalCode env (obj_get (h a) ''code'')), h)
   \<and> executeToolCall env req ''edit_workflow'' a h =
       (caught ''Workflow edit failed''
          (editWorkflow env (obj_spread [(''workflowId'', JString (workflowId req))] (h a))
             (userId req)), h)
   \<and> executeToolCall env req ''get_workflow_console'' a h =
       (caught ''Failed to get workflow data''
          (getWorkflowConsole env (obj_spread [(''workflowId'', JString (workflowId req))] (h a))), h)
   \<and> executeToolCall env req ''get_blocks_metadata'' a h =
       (caught ''Failed to get blocks metadata'' (getBlocksMetadata env (h a)), h)
   \<and> executeToolCall env req ''get_blocks_and_tools'' a h =
       (caught ''Failed to get blocks and tools'' (getBlocksAndTools env []), h)"
proof -
  have "obj_get (addContext req (addCredential req (h a))) ''_context'' =
          Some (JObject [(''workflowId'', JString (workflowId req)),
                         (''userId'', JString (userId req))])"
    by (simp add: addContext_def obj_get_set)
  then have "toolName \<notin> set privilegedTools \<longrightarrow>
      (\<exists>input'.
          executeToolCall env req toolName a h =
            (fromToolResponse
               (executeTool env toolName input'
                  \<lparr>ctx_userId = userId req, ctx_workflowId = workflowId req\<rparr>),
             h(a := input'))
        \<and> obj_get input' ''_context'' =
            Some (JObject [(''workflowId'', JString (workflowId req)),
                           (''userId'', JString (userId req))]))"
    using executeToolCall_registry[of toolName env req a h] by blast
  then show ?thesis
    by (simp add: executeToolCall_def Let_def)
qed

theorem context_injected_for_registry_tools_witness:
  "''gmail_send'' \<notin> set privilegedTools
   \<and> obj_get (snd (executeToolCall echoEnv exampleRequest ''gmail_send'' 0 (\<lambda>a. [])) 0) ''_context''
       = Some (JObject [(''workflowId'', JString ''wf-1''), (''userId'', JString ''user-1'')])"
proof -
  have p: "''gmail_send'' \<notin> set privilegedTools"
    by (simp add: privilegedTools_def)
  from context_injected_for_registry_tools[of "''gmail_send''" echoEnv exampleRequest 0 "\<lambda>a. []"] p
  obtain input' where
    "executeToolCall echoEnv exampleRequest ''gmail_send'' 0 (\<lambda>a. []) =
       (fromToolResponse
          (executeTool echoEnv ''gmail_send'' input'
             \<lparr>ctx_userId = userId exampleRequest, ctx_workflowId = workflowId exampleRequest\<rparr>),
        (\<lambda>a. [])(0 := input'))"
    and "obj_get input' ''_context'' =
       Some (JObject [(''workflowId'', JString (workflowId exampleRequest)),
                      (''userId'', JString (userId exampleRequest))])"
    by blast
  with p show ?thesis
    by (simp add: exampleRequest_def)
qed

text \<open>
  C3 as the spec states it fails for the privileged tools: \<open>get_blocks_metadata\<close>,
  called with an empty input, is executed with that empty input (the tool echoes its
  argument), and the input object is left without a \<open>_context\<close>.
\<close>

theorem privileged_tool_without_context_counterexample:
  "fst (executeToolCall echoEnv exampleRequest ''get_blocks_metadata'' 0 (\<lambda>a. []))
     = \<lparr>success = True, result = Some (JObject []), error = None\<rparr>
   \<and> obj_get (snd (executeToolCall echoEnv exampleRequest ''get_blocks_metadata'' 0 (\<lambda>a. [])) 0)
        ''_context'' = None"
  by (simp add: executeToolCall_def echoEnv_def caught_def obj_get_def)


section \<open>Deduplication of the converted tools\<close>

definition keyed :: "(string \<times> converted_tool) list \<Rightarrow> bool" where
  "keyed u = (\<forall>(k, t) \<in> set u. k = c_name t)"

lemma keyed_filter_absent:
  assumes "keyed u" and "n \<notin> fst ` set u"
  shows "filter (\<lambda>c. c_name c = n) (map snd u) = []"
  using assms by (induction u) (auto simp: keyed_def)

lemma dedupLoop_seen:
  assumes "c_name t \<in> fst ` set u"
  shows "dedupLoop (t # ts) u d = dedupLoop ts u (d @ [c_name t])"
proof -
  from assms have "map_of u (c_name t) \<noteq> None"
    by (auto simp: map_of_eq_None_iff)
  then show ?thesis by auto
qed

lemma dedupLoop_new:
  assumes "c_name t \<notin> fst ` set u"
  shows "dedupLoop (t # ts) u d = dedupLoop ts (u @ [(c_name t, t)]) d"
proof -
  from assms have "map_of u (c_name t) = None"
    by (auto simp: map_of_eq_None_iff)
  then show ?thesis by auto
qed

lemma keyed_names: "keyed u \<Longrightarrow> map c_name (map snd u) = map fst u"
  by (induction u) (auto simp: keyed_def)

lemma dedupLoop_filter:
  assumes "keyed u"
  shows "filter (\<lambda>c. c_name c = n) (map snd (fst (dedupLoop ts u d))) =
           (if n \<in> fst ` set u then filter (\<lambda>c. c_name c = n) (map snd u)
            else take 1 (filter (\<lambda>c. c_name c = n) ts))"
  using assms
proof (induction ts arbitrary: u d)
  case Nil
  then show ?case by (simp add: keyed_filter_absent)
next
  case (Cons t ts)
  show ?case
  proof (cases "c_name t \<in> fst ` set u")
    case True
    then have step: "dedupLoop (t # ts) u d = dedupLoop ts u (d @ [c_name t])"
      by (rule dedupLoop_seen)
    from True have "n \<notin> fst ` set u \<Longrightarrow> c_name t \<noteq> n" by auto
    with Cons.IH[OF Cons.prems, of "d @ [c_name t]"] show ?thesis
      unfolding step by auto
  next
    case False
    let ?u = "u @ [(c_name t, t)]"
    from False have step: "dedupLoop (t # ts) u d = dedupLoop ts ?u d"
      by (rule dedupLoop_new)
    from Cons.prems have k: "keyed ?u" by (auto simp: keyed_def)
    have ih: "filter (\<lambda>c. c_name c = n) (map snd (fst (dedupLoop ts ?u d))) =
           (if n \<in> fst ` set ?u then filter (\<lambda>c. c_name c = n) (map snd ?u)
            else take 1 (filter (\<lambda>c. c_name c = n) ts))"
      by (rule Cons.IH[OF k])
    show ?thesis
    proof (cases "n \<in> fst ` set u")
      case True
      with False have "c_name t \<noteq> n" by auto
      with ih True show ?thesis unfolding step by simp
    next
      case nu: False
      show ?thesis
      proof (cases "c_name t = n")
        case True
        with ih nu keyed_filter_absent[OF Cons.prems nu] show ?thesis
          unfolding step by simp
      next
        case False
        with ih nu show ?thesis unfolding step by auto
      qed
    qed
  qed
qed

lemma dedupLoop_distinct:
  assumes "keyed u" and "distinct (map fst u)"
  shows "distinct (map c_name (map snd (fst (dedupLoop ts u d))))"
  using assms
proof (induction ts arbitrary: u d)
  case Nil
  then show ?case by (simp only: dedupLoop.simps fst_conv keyed_names)
next
  case (Cons t ts)
  show ?case
  proof (cases "c_name t \<in> fst ` set u")
    case True
    from Cons.IH[OF Cons.prems, of "d @ [c_name t]"] show ?thesis
      by (simp only: dedupLoop_seen[OF True])
  next
    case False
    let ?u = "u @ [(c_name t, t)]"
    from Cons.prems False have "keyed ?u" and "distinct (map fst ?u)"
      by (auto simp: keyed_def)
    from Cons.IH[OF this, of d] show ?thesis
      by (simp only: dedupLoop_new[OF False])
  qed
qed

lemma those_map_Some:
  "those (map f xs) = Some ys \<Longrightarrow> map f xs = map Some ys"
proof (induction xs arbitrary: ys)
  case Nil
  then show ?case by simp
next
  case (Cons x xs)
  then show ?case
    by (cases "f x"; cases "those (map f xs)") auto
qed

lemma c_name_convertTool: "convertTool re t = Some c \<Longrightarrow> c_name c = name t"
  by (auto simp: convertTool_def Let_def split: Option.bind_splits)

lemma first_converted:
  assumes "map (convertTool re) ts = map Some cs"
  shows "take 1 (filter (\<lambda>c. c_name c = n) cs) =
           (case find (\<lambda>t. name t = n) ts of
              None \<Rightarrow> []
            | Some t0 \<Rightarrow> (case convertTool re t0 of None \<Rightarrow> [] | Some c0 \<Rightarrow> [c0]))"
  using assms
proof (induction ts arbitrary: cs)
  case Nil
  then show ?case by simp
next
  case (Cons t ts)
  then obtain c cs' where cs: "cs = c # cs'" and c: "convertTool re t = Some c"
    and rest: "map (convertTool re) ts = map Some cs'"
    by (cases cs) auto
  from c have "c_name c = name t" by (rule c_name_convertTool)
  with Cons.IH[OF rest] c show ?case
    by (simp add: cs)
qed

text \<open>
  C8. Let every tool of the set convert on its own (no schema makes the normalizer
  throw), and let two entries, at positions \<open>i < j\<close>, share a name. Then the conversion
  returns a result, not an error; the result holds exactly one entry of that name, the
  conversion of the first tool of that name in the set; and all names of the result
  are distinct.
\<close>

theorem duplicate_tool_names_first_wins:
  assumes "those (map (convertTool re) ts) = Some cs"
    and "i < j" and "j < length ts" and "name (ts ! i) = name (ts ! j)"
  shows "\<exists>out t0 c0.
           convertToolsToAnthropic re ts = Some out
         \<and> find (\<lambda>t. name t = name (ts ! j)) ts = Some t0
         \<and> convertTool re t0 = Some c0
         \<and> filter (\<lambda>c. c_name c = name (ts ! j)) out = [c0]
         \<and> distinct (map c_name out)"
proof -
  let ?n = "name (ts ! j)"
  let ?out = "map snd (fst (dedupLoop cs [] []))"
  have out: "convertToolsToAnthropic re ts = Some ?out"
    by (simp add: convertToolsToAnthropic_def assms(1) split_beta)
  have conv: "map (convertTool re) ts = map Some cs"
    by (rule those_map_Some[OF assms(1)])
  from assms(3) have "ts ! j \<in> set ts" by simp
  then obtain t0 where t0: "find (\<lambda>t. name t = ?n) ts = Some t0"
    by (cases "find (\<lambda>t. name t = ?n) ts") (auto simp: find_None_iff)
  then have "t0 \<in> set ts"
    by (auto simp: find_Some_iff)
  then have "convertTool re t0 \<in> set (map Some cs)"
    unfolding conv[symmetric] by simp
  then obtain c0 where c0: "convertTool re t0 = Some c0" by auto
  have "filter (\<lambda>c. c_name c = ?n) ?out = take 1 (filter (\<lambda>c. c_name c = ?n) cs)"
    using dedupLoop_filter[of "[]" ?n cs "[]"] by (simp add: keyed_def)
  also have "\<dots> = [c0]"
    using first_converted[OF conv, of ?n] t0 c0 by simp
  finally have one: "filter (\<lambda>c. c_name c = ?n) ?out = [c0]" .
  have "distinct (map c_name ?out)"
    using dedupLoop_distinct[of "[]" cs "[]"] by (simp add: keyed_def)
  with out t0 c0 one show ?thesis by blast
qed


lemma convert_duplicatedTools:
  "those (map (convertTool exampleRegExp) duplicatedTools)
     = Some [convertedSearch ''first'', convertedFetch, convertedSearch ''second'']"
  by code_simp

theorem duplicate_tool_names_first_wins_witness:
  "those (map (convertTool exampleRegExp) duplicatedTools)
     = Some [convertedSearch ''first'', convertedFetch, convertedSearch ''second'']
   \<and> (0::nat) < 2 \<and> 2 < length duplicatedTools
   \<and> name (duplicatedTools ! 0) = name (duplicatedTools ! 2)
   \<and> convertToolsToAnthropic exampleRegExp duplicatedTools
       = Some [convertedSearch ''first'', convertedFetch]"
proof -
  have h2: "(0::nat) < 2" and h3: "2 < length duplicatedTools"
    and h4: "name (duplicatedTools ! 0) = name (duplicatedTools ! 2)"
    by (simp_all add: duplicatedTools_def)
  have e: "convertToolsToAnthropic exampleRegExp duplicatedTools
       = Some [convertedSearch ''first'', convertedFetch]"
    by code_simp
  from duplicate_tool_names_first_wins[OF convert_duplicatedTools h2 h3 h4]
  obtain out where "convertToolsToAnthropic exampleRegExp duplicatedTools = Some out"
    and "distinct (map c_name out)"
    by blast
  with e convert_duplicatedTools h2 h3 h4 show ?thesis
    by simp
qed


lemma dedupLoop_distinct_names:
  assumes "keyed u" and "distinct (map fst u @ map c_name cs)"
  shows "map snd (fst (dedupLoop cs u d)) = map snd u @ cs"
  using assms
proof (induction cs arbitrary: u d)
  case Nil
  then show ?case by simp
next
  case (Cons t ts)
  from Cons.prems(2) have fresh: "c_name t \<notin> fst ` set u" by auto
  let ?u = "u @ [(c_name t, t)]"
  from Cons.prems have "keyed ?u" and "distinct (map fst ?u @ map c_name ts)"
    by (auto simp: keyed_def)
  from Cons.IH[OF this, of d] show ?case
    by (simp del: dedupLoop.simps add: dedupLoop_new[OF fresh])
qed

lemma convertToolsToAnthropic_distinct_names:
  assumes "those (map (convertTool re) ts) = Some cs" and "distinct (map name ts)"
  shows "convertToolsToAnthropic re ts = Some cs"
proof -
  have "map c_name cs = map name ts"
  proof -
    from assms(1) have m: "map (convertTool re) ts = map Some cs" by (rule those_map_Some)
    then have len: "length cs = length ts" by (metis length_map)
    show ?thesis
    proof (rule nth_equalityI)
      show "length (map c_name cs) = length (map name ts)" by (simp add: len)
    next
      fix i assume "i < length (map c_name cs)"
      then have i: "i < length ts" by (simp add: len)
      from m have "map (convertTool re) ts ! i = map Some cs ! i" by simp
      with i len have "convertTool re (ts ! i) = Some (cs ! i)" by simp
      from c_name_convertTool[OF this] i len show "map c_name cs ! i = map name ts ! i" by simp
    qed
  qed
  with assms(2) have "distinct (map fst [] @ map c_name cs)" by simp
  from dedupLoop_distinct_names[OF _ this, of "[]"] have "map snd (fst (dedupLoop cs [] [])) = cs"
    by (simp add: keyed_def)
  then show ?thesis
    by (simp add: convertToolsToAnthropic_def assms(1) split_beta)
qed

section \<open>What the loop asks of the provider\<close>

lemma requests_enqueue: "requests (enqueue e s) = requests s"
  by (simp add: enqueue_def)

lemma requests_onCallback: "requests (snd (onCallback c ts)) = requests (snd ts)"
  by (cases "(c, ts)" rule: onCallback.cases) (auto simp: requests_enqueue Let_def)

lemma requests_callbacks: "requests (snd (fold onCallback cs ts)) = requests (snd ts)"
  by (induction cs arbitrary: ts) (auto simp: requests_onCallback)

lemma requests_runToolCalls: "requests (snd (runToolCalls env req bs rs s)) = requests s"
  by (induction env req bs rs s rule: runToolCalls.induct)
     (auto simp: requests_enqueue Let_def split: prod.splits)

lemma requests_streamTurn:
  "requests (snd (streamTurn prov model systemPrompt ts s))
     = requests s @ [\<lparr>pr_model = model, pr_system = systemPrompt, pr_messages = view s,
                      pr_tools = (if length ts > 0 then Some ts else None)\<rparr>]"
proof -
  have v: "view (s\<lparr>iterationCount := k\<rparr>) = view s" for k by (simp add: view_def)
  show ?thesis
    by (simp add: streamTurn_def Let_def split_beta requests_callbacks v)
qed

lemma requests_inspectTurn: "requests (inspectTurn env req fm s) = requests s"
proof (cases "filter isToolUse (fm_content fm) \<noteq> []")
  case True
  obtain content h n where al: "alloc_blocks (fm_content fm) (heap s) (nextAddr s) = (content, h, n)"
    by (cases "alloc_blocks (fm_content fm) (heap s) (nextAddr s)")
  define s3 where "s3 = s\<lparr>heap := h, nextAddr := n,
      conversationMessages := conversationMessages s @ [Message Assistant (Blocks content)]\<rparr>"
  have "requests (snd (runToolCalls env req (filter isToolUse content) [] s3)) = requests s"
    by (simp add: requests_runToolCalls s3_def)
  with True al show ?thesis
    by (simp add: inspectTurn_def Let_def s3_def split_beta)
next
  case False
  then show ?thesis
    by (simp add: inspectTurn_def enqueue_def)
qed

text \<open>The state in which the loop was left.\<close>

fun stateOf :: "thrown \<times> loop_state + loop_state \<Rightarrow> loop_state" where
  "stateOf (Inl (e, s)) = s"
| "stateOf (Inr s) = s"

lemma requests_closeStream: "requests (closeStream r) = requests (stateOf r)"
  by (cases r rule: stateOf.cases) (simp_all add: closeStream_def enqueue_def Let_def)

lemma requests_iteration:
  "requests (stateOf (iteration prov env req model systemPrompt ts s))
     = requests s @ [\<lparr>pr_model = model, pr_system = systemPrompt, pr_messages = view s,
                      pr_tools = (if length ts > 0 then Some ts else None)\<rparr>]"
proof -
  obtain r s1 where st: "streamTurn prov model systemPrompt ts s = (r, s1)"
    by (cases "streamTurn prov model systemPrompt ts s")
  with requests_streamTurn[of prov model systemPrompt ts s]
  have "requests s1 = requests s @ [\<lparr>pr_model = model, pr_system = systemPrompt, pr_messages = view s,
                      pr_tools = (if length ts > 0 then Some ts else None)\<rparr>]"
    by simp
  with st show ?thesis
    by (cases r) (simp_all add: iteration_def requests_inspectTurn)
qed

lemma requests_toolLoop:
  "\<exists>rs. requests (stateOf (toolLoop prov env req model systemPrompt ts s)) = requests s @ rs
       \<and> map pr_tools rs = replicate (length rs) (if length ts > 0 then Some ts else None)
       \<and> (continueLoop s \<and> iterationCount s < maxIterations \<longrightarrow> rs \<noteq> [])"
proof (induction prov env req model systemPrompt ts s rule: toolLoop.induct)
  case (1 prov env req model systemPrompt ts s)
  show ?case
  proof (cases "continueLoop s \<and> iterationCount s < maxIterations")
    case False
    then have "toolLoop prov env req model systemPrompt ts s = Inr s"
      by (subst toolLoop.simps) auto
    with False show ?thesis by simp
  next
    case True
    let ?pr = "\<lparr>pr_model = model, pr_system = systemPrompt, pr_messages = view s,
                      pr_tools = (if length ts > 0 then Some ts else None)\<rparr>"
    show ?thesis
    proof (cases "iteration prov env req model systemPrompt ts s")
      case (Inl x)
      with True have "toolLoop prov env req model systemPrompt ts s = Inl x"
        by (subst toolLoop.simps) simp
      with requests_iteration[of prov env req model systemPrompt ts s] Inl
      have "requests (stateOf (toolLoop prov env req model systemPrompt ts s)) = requests s @ [?pr]"
        by simp
      then show ?thesis
        by (intro exI[of _ "[?pr]"]) simp
    next
      case (Inr s')
      with True have unfold: "toolLoop prov env req model systemPrompt ts s
          = toolLoop prov env req model systemPrompt ts s'"
        by (subst toolLoop.simps) simp
      from requests_iteration[of prov env req model systemPrompt ts s] Inr
      have r1: "requests s' = requests s @ [?pr]" by simp
      from "1.IH"[OF True Inr] obtain rs where
        rs: "requests (stateOf (toolLoop prov env req model systemPrompt ts s')) = requests s' @ rs"
        and t: "map pr_tools rs = replicate (length rs) (if length ts > 0 then Some ts else None)"
        by blast
      show ?thesis
        by (intro exI[of _ "?pr # rs"]) (simp add: unfold rs r1 t)
    qed
  qed
qed


section \<open>Trimming the tool set\<close>

text \<open>The trimmed list: all base tools, then the first of the other tools, 100 in all.\<close>

lemma toolsToConvert_trimmed:
  assumes "length (orEmpty (baseTools req)) + length (orEmpty (tools req)) > 100"
    and "length (orEmpty (baseTools req)) \<le> 100"
  shows "toolsToConvert req =
           orEmpty (baseTools req) @ take (100 - length (orEmpty (baseTools req))) (orEmpty (tools req))
         \<and> length (toolsToConvert req) = 100"
proof (cases "length (orEmpty (baseTools req)) = 100")
  case True
  with assms show ?thesis
    by (simp add: toolsToConvert_def MAX_TOOLS_def Let_def)
next
  case False
  with assms have "int 100 - int (length (orEmpty (baseTools req))) > 0"
    by simp
  moreover have "nat (int 100 - int (length (orEmpty (baseTools req))))
      = 100 - length (orEmpty (baseTools req))"
    by simp
  ultimately show ?thesis
    using assms by (simp add: toolsToConvert_def MAX_TOOLS_def Let_def min_def)
qed

text \<open>The names of the example tools are pairwise different.\<close>

lemma string_of_nat_nonempty: "string_of_nat n \<noteq> []"
  by (subst string_of_nat.simps) simp

lemma string_of_nat_last: "last (string_of_nat n) = char_of (48 + n mod 10)"
  by (subst string_of_nat.simps) simp

lemma string_of_nat_butlast:
  "butlast (string_of_nat n) = (if n < 10 then [] else string_of_nat (n div 10))"
  by (subst string_of_nat.simps) simp

lemma digit_inj:
  assumes "char_of (48 + a) = (char_of (48 + b) :: char)" and "a < 10" and "b < 10"
  shows "a = (b::nat)"
proof -
  from assms(1) have "of_char (char_of (48 + a) :: char) = (of_char (char_of (48 + b) :: char) :: nat)"
    by simp
  with assms(2,3) show ?thesis by simp
qed

lemma string_of_nat_inj: "string_of_nat n = string_of_nat m \<Longrightarrow> n = m"
proof (induction n arbitrary: m rule: string_of_nat.induct)
  case (1 n)
  from "1.prems" have l: "last (string_of_nat n) = last (string_of_nat m)"
    and b: "butlast (string_of_nat n) = butlast (string_of_nat m)"
    by simp_all
  from l have "char_of (48 + n mod 10) = (char_of (48 + m mod 10) :: char)"
    by (simp only: string_of_nat_last)
  then have md: "n mod 10 = m mod 10"
    by (rule digit_inj) simp_all
  show ?case
  proof (cases "n < 10")
    case True
    with b have "m < 10"
      by (auto simp: string_of_nat_butlast string_of_nat_nonempty[THEN not_sym] split: if_splits)
    with True md show ?thesis by simp
  next
    case False
    with b have m: "\<not> m < 10" and "string_of_nat (n div 10) = string_of_nat (m div 10)"
      using string_of_nat_nonempty[of "n div 10"]
      by (auto simp: string_of_nat_butlast split: if_splits)
    with "1.IH"[OF False] have "n div 10 = m div 10" by simp
    with md show ?thesis
      by (metis div_mult_mod_eq)
  qed
qed

lemma clean_defaultSchema: "cleanJsonSchema exampleRegExp defaultSchema = Some defaultSchema"
  by code_simp

lemma convert_exampleTool: "convertTool exampleRegExp (exampleTool i) = Some (convertedExample i)"
  by (simp add: convertTool_def exampleTool_def convertedExample_def clean_defaultSchema
      removeDraft07_def ensureType_def)
     (simp add: defaultSchema_def obj_get_def)

lemma convert_exampleTools:
  "those (map (convertTool exampleRegExp) (map exampleTool ns)) = Some (map convertedExample ns)"
  by (induction ns) (simp_all add: convert_exampleTool)

lemma dedupLoop_logs: "fst (dedupLoop cs u d) = fst (dedupLoop cs u d')"
  by (induction cs arbitrary: u d d') auto

lemma dedupLoop_skip:
  assumes "c_name c \<in> fst ` set u \<union> c_name ` set xs"
  shows "fst (dedupLoop (xs @ c # ys) u d) = fst (dedupLoop (xs @ ys) u d)"
  using assms
proof (induction xs arbitrary: u d)
  case Nil
  then have "c_name c \<in> fst ` set u" by simp
  then have "dedupLoop (c # ys) u d = dedupLoop ys u (d @ [c_name c])"
    by (rule dedupLoop_seen)
  then show ?case
    using dedupLoop_logs[of ys u "d @ [c_name c]" d] by simp
next
  case (Cons x xs)
  show ?case
  proof (cases "c_name x \<in> fst ` set u")
    case True
    with Cons.prems have "c_name c \<in> fst ` set u \<union> c_name ` set xs" by force
    from Cons.IH[OF this, of "d @ [c_name x]"] show ?thesis
      by (simp del: dedupLoop.simps add: dedupLoop_seen[OF True])
  next
    case False
    let ?u = "u @ [(c_name x, x)]"
    from Cons.prems have "c_name c \<in> fst ` set ?u \<union> c_name ` set xs" by auto
    from Cons.IH[OF this, of d] show ?thesis
      by (simp del: dedupLoop.simps add: dedupLoop_new[OF False])
  qed
qed

lemma trimmed_overlapping:
  "toolsToConvert overlappingRequest = map exampleTool ([0..<20] @ 19 # [20..<99])"
proof -
  have "take 80 [19..<149] = [19..<99]" by (simp add: take_upt)
  also have "\<dots> = 19 # [20..<99]" by (simp add: upt_conv_Cons)
  finally have "take 80 (map exampleTool [19..<149]) = map exampleTool (19 # [20..<99])"
    by (simp only: take_map)
  then show ?thesis
    by (simp add: toolsToConvert_def overlappingRequest_def orEmpty_def MAX_TOOLS_def Let_def
        del: upt_Suc)
qed

lemma sent_overlapping:
  "convertToolsToAnthropic exampleRegExp (toolsToConvert overlappingRequest)
     = Some (map convertedExample [0..<99])"
proof -
  let ?xs = "map convertedExample [0..<20]" and ?ys = "map convertedExample [20..<99]"
  have conv: "those (map (convertTool exampleRegExp) (toolsToConvert overlappingRequest))
      = Some (?xs @ convertedExample 19 # ?ys)"
    by (simp only: trimmed_overlapping convert_exampleTools) (simp only: map_append list.map)
  have e: "(20::nat) + 79 = 99" by simp
  have "[0..<20 + 79] = [0..<20] @ [20..<20 + 79]"
    by (rule upt_add_eq_append) simp
  then have "[0..<99] = [0..<20] @ [20..<99]"
    by (simp only: e)
  then have all: "?xs @ ?ys = map convertedExample [0..<99]"
    by (simp only: map_append)
  have "c_name (convertedExample 19) \<in> fst ` set [] \<union> c_name ` set ?xs"
    by (simp del: upt_Suc)
  then have "fst (dedupLoop (?xs @ convertedExample 19 # ?ys) [] [])
      = fst (dedupLoop (?xs @ ?ys) [] [])"
    by (rule dedupLoop_skip)
  moreover have "map snd (fst (dedupLoop (map convertedExample [0..<99]) [] []))
      = map snd ([] :: (string \<times> converted_tool) list) @ map convertedExample [0..<99]"
  proof (rule dedupLoop_distinct_names)
    show "keyed []" by (simp add: keyed_def)
    have "inj_on (\<lambda>i. c_name (convertedExample i)) (set [0..<99])"
      by (auto simp: inj_on_def convertedExample_def dest: string_of_nat_inj)
    then show "distinct (map fst [] @ map c_name (map convertedExample [0..<99]))"
      by (simp add: distinct_map comp_def del: upt_Suc)
  qed
  ultimately have "map snd (fst (dedupLoop (?xs @ convertedExample 19 # ?ys) [] []))
      = map convertedExample [0..<99]"
    by (simp only: all) simp
  with conv show ?thesis
    by (simp add: convertToolsToAnthropic_def split_beta del: upt_Suc)
qed

text \<open>
  C7. The request carries 20 base tools and 130 other tools, of which the first has the
  name of the last base tool. The trimmed list (lines 1058-1079) is the 20 base tools
  and the first 80 of the others, 100 tools. The names are deduplicated only afterwards,
  inside \<open>convertToolsToAnthropic\<close> (line 1082), so every request that goes to the
  provider carries 99 tools: the 20 base tools and 79 of the others. The 81st of the
  other tools is not sent, although a slot is free.
\<close>

theorem overlapping_tools_leave_a_slot_unused:
  "length (orEmpty (baseTools overlappingRequest)) = 20
   \<and> length (orEmpty (tools overlappingRequest)) = 130
   \<and> toolsToConvert overlappingRequest
       = orEmpty (baseTools overlappingRequest) @ take 80 (orEmpty (tools overlappingRequest))
   \<and> length (toolsToConvert overlappingRequest) = 100
   \<and> (\<exists>s. createAnthropicStream exampleRegExp prov env overlappingRequest model systemPrompt
              = Some s
          \<and> requests s \<noteq> []
          \<and> map pr_tools (requests s)
              = replicate (length (requests s)) (Some (map convertedExample [0..<99])))
   \<and> length (map convertedExample [0..<99]) = 99"
proof -
  let ?sent = "map convertedExample [0..<99]"
  let ?s0 = "openStream overlappingRequest model systemPrompt"
  let ?r = "toolLoop prov env overlappingRequest model systemPrompt ?sent ?s0"
  have b: "orEmpty (baseTools overlappingRequest) = map exampleTool [0..<20]"
    and r: "orEmpty (tools overlappingRequest) = map exampleTool [19..<149]"
    by (simp_all add: overlappingRequest_def orEmpty_def)
  have lens: "length (orEmpty (baseTools overlappingRequest)) = 20"
    "length (orEmpty (tools overlappingRequest)) = 130"
    by (simp_all add: b r)
  from toolsToConvert_trimmed[of overlappingRequest]
  have trimmed: "toolsToConvert overlappingRequest
       = orEmpty (baseTools overlappingRequest) @ take 80 (orEmpty (tools overlappingRequest))"
    and len: "length (toolsToConvert overlappingRequest) = 100"
    by (simp_all add: lens)
  have init: "continueLoop ?s0" "iterationCount ?s0 < maxIterations" "requests ?s0 = []"
    by (simp_all add: openStream_def enqueue_def Let_def split_beta maxIterations_def)
  have some: "(if length ?sent > 0 then Some ?sent else None) = Some ?sent"
    by simp
  from requests_toolLoop[of prov env overlappingRequest model systemPrompt ?sent ?s0]
  obtain rs where "requests (stateOf ?r) = requests ?s0 @ rs"
    and "map pr_tools rs = replicate (length rs)
           (if length ?sent > 0 then Some ?sent else None)"
    and "continueLoop ?s0 \<and> iterationCount ?s0 < maxIterations \<longrightarrow> rs \<noteq> []"
    by blast
  with init have rq: "requests (stateOf ?r) = rs" and ne: "rs \<noteq> []"
    and tl: "map pr_tools rs = replicate (length rs) (Some ?sent)"
    by (simp_all only: some append_Nil simp_thms)
  have cl: "requests (closeStream ?r) = rs"
    by (simp only: requests_closeStream rq)
  have "requests (closeStream ?r) \<noteq> []"
    and "map pr_tools (requests (closeStream ?r))
          = replicate (length (requests (closeStream ?r))) (Some ?sent)"
    unfolding cl by (rule ne, rule tl)
  moreover have "createAnthropicStream exampleRegExp prov env overlappingRequest model systemPrompt
      = Some (closeStream ?r)"
    by (simp add: createAnthropicStream_def sent_overlapping del: upt_Suc)
  ultimately have sent: "\<exists>s. createAnthropicStream exampleRegExp prov env overlappingRequest model
        systemPrompt = Some s
      \<and> requests s \<noteq> []
      \<and> map pr_tools (requests s) = replicate (length (requests s)) (Some ?sent)"
    by blast
  have n: "length ?sent = 99" by simp
  show ?thesis
    by (intro conjI lens trimmed len sent n)
qed


section \<open>The iteration cap of the loop\<close>

fun isOnError :: "callback \<Rightarrow> bool" where
  "isOnError (OnError m) = True"
| "isOnError c = False"

text \<open>A turn that completes: no \<open>error\<close> callback fires and \<open>finalMessage()\<close> resolves,
  with or without a \<open>tool_use\<close> block in its content.\<close>

definition completesWithToolUse :: "turn \<Rightarrow> bool" where
  "completesWithToolUse t =
     (list_all (\<lambda>c. \<not> isOnError c) (callbacks t)
      \<and> (case outcome t of
            Inr finalMessage \<Rightarrow> list_ex isToolUse (fm_content finalMessage)
          | Inl e \<Rightarrow> False))"

definition completesWithoutToolUse :: "turn \<Rightarrow> bool" where
  "completesWithoutToolUse t =
     (list_all (\<lambda>c. \<not> isOnError c) (callbacks t)
      \<and> (case outcome t of
            Inr finalMessage \<Rightarrow> \<not> list_ex isToolUse (fm_content finalMessage)
          | Inl e \<Rightarrow> False))"

fun terminalEvent :: "event \<Rightarrow> bool" where
  "terminalEvent (EvError m d) = True"
| "terminalEvent (EvDone u) = True"
| "terminalEvent e = False"

text \<open>\<open>s'\<close> continues \<open>s\<close>: the loop flag is as it was, and only events that are neither
  \<open>error\<close> nor \<open>done\<close> were added to the stream.\<close>

definition continues :: "loop_state \<Rightarrow> loop_state \<Rightarrow> bool" where
  "continues s s' =
     (continueLoop s' = continueLoop s \<and> closed s' = closed s
      \<and> (\<exists>evs. events s' = events s @ evs \<and> list_all (\<lambda>e. \<not> terminalEvent e) evs))"

lemma continues_refl: "continues s s"
  by (simp add: continues_def)

lemma continues_trans: "continues s s' \<Longrightarrow> continues s' s'' \<Longrightarrow> continues s s''"
  by (auto simp: continues_def)

lemma continues_enqueue: "\<not> terminalEvent e \<Longrightarrow> continues s (enqueue e s)"
  by (simp add: continues_def enqueue_def)

lemma continues_onCallback:
  "\<not> isOnError c \<Longrightarrow> continues (snd ts) (snd (onCallback c ts))"
  by (cases "(c, ts)" rule: onCallback.cases)
     (auto simp: continues_def enqueue_def Let_def)

lemma continues_callbacks:
  "list_all (\<lambda>c. \<not> isOnError c) cs \<Longrightarrow> continues (snd ts) (snd (fold onCallback cs ts))"
proof (induction cs arbitrary: ts)
  case Nil
  then show ?case by (simp add: continues_refl)
next
  case (Cons c cs)
  then have "continues (snd ts) (snd (onCallback c ts))"
    and "continues (snd (onCallback c ts)) (snd (fold onCallback cs (onCallback c ts)))"
    by (simp_all add: continues_onCallback)
  then show ?case
    by (auto intro: continues_trans)
qed

lemma continues_runToolCalls:
  "continues s (snd (runToolCalls env req bs rs s))"
proof (induction env req bs rs s rule: runToolCalls.induct)
  case (1 env req toolResults s)
  then show ?case by (simp add: continues_refl)
next
  case (2 env req i nm a rest toolResults s)
  define s1 where "s1 = enqueue (EvToolCall i nm (heap s a) False) s"
  obtain r h where ex: "executeToolCall (env (toolCalls s1)) req nm a (heap s1) = (r, h)"
    by (cases "executeToolCall (env (toolCalls s1)) req nm a (heap s1)")
  define s2 where "s2 = s1\<lparr>heap := h, toolCalls := Suc (toolCalls s1)\<rparr>"
  define s3 where "s3 = enqueue (EvToolResult i nm (success r) (result r) (error r)) s2"
  define rs where "rs = toolResults @
      [ToolResult i (if success r then ResultJson (result r) else ResultError (error r))]"
  have step: "runToolCalls env req (ToolUse i nm a # rest) toolResults s
      = runToolCalls env req rest rs s3"
    by (simp add: Let_def s1_def[symmetric] ex s2_def[symmetric] s3_def[symmetric] rs_def)
  have "continues s s3"
    by (simp add: continues_def s3_def s2_def s1_def enqueue_def)
  moreover have "continues s3 (snd (runToolCalls env req rest rs s3))"
    by (rule "2.IH"[OF s1_def ex[symmetric] refl s2_def s3_def rs_def])
  ultimately show ?case
    unfolding step by (rule continues_trans)
qed (simp_all)

lemma streamTurn_completes:
  assumes "list_all (\<lambda>c. \<not> isOnError c) (callbacks (prov (Suc (iterationCount s)) pr))"
    and "pr = \<lparr>pr_model = model, pr_system = systemPrompt, pr_messages = view s,
                pr_tools = (if length ts > 0 then Some ts else None)\<rparr>"
  shows "\<exists>s1. streamTurn prov model systemPrompt ts s = (outcome (prov (Suc (iterationCount s)) pr), s1)
            \<and> continues s s1 \<and> iterationCount s1 = Suc (iterationCount s)"
proof -
  let ?s0 = "s\<lparr>iterationCount := iterationCount s + 1, requests := requests s @ [pr]\<rparr>"
  have v: "view (s\<lparr>iterationCount := k\<rparr>) = view s" for k by (simp add: view_def)
  let ?t = "prov (Suc (iterationCount s)) pr"
  let ?s1 = "snd (fold onCallback (callbacks ?t) (([], False, None), ?s0))"
  have eq: "streamTurn prov model systemPrompt ts s = (outcome ?t, ?s1)"
    by (simp add: streamTurn_def Let_def split_beta v assms(2))
  have "continues ?s0 ?s1"
    using continues_callbacks[OF assms(1), of "(([], False, None), ?s0)"] by simp
  moreover have "continues s ?s0"
    by (simp add: continues_def)
  ultimately have "continues s ?s1" by (blast intro: continues_trans)
  moreover have "iterationCount ?s1 = Suc (iterationCount s)"
    by (simp add: iterationCount_callbacks)
  ultimately show ?thesis using eq by blast
qed

lemma inspectTurn_with_tools:
  assumes "list_ex isToolUse (fm_content fm)"
  shows "continues s (inspectTurn env req fm s)"
proof -
  from assms have t: "filter isToolUse (fm_content fm) \<noteq> []"
    by (simp add: list_ex_iff filter_empty_conv)
  obtain content h n where al: "alloc_blocks (fm_content fm) (heap s) (nextAddr s) = (content, h, n)"
    by (cases "alloc_blocks (fm_content fm) (heap s) (nextAddr s)")
  define s3 where "s3 = s\<lparr>heap := h, nextAddr := n,
      conversationMessages := conversationMessages s @ [Message Assistant (Blocks content)]\<rparr>"
  obtain rs s4 where run: "runToolCalls env req (filter isToolUse content) [] s3 = (rs, s4)"
    by (cases "runToolCalls env req (filter isToolUse content) [] s3")
  have "continues s3 s4"
    using continues_runToolCalls[of s3 env req "filter isToolUse content" "[]"] run by simp
  moreover have "continues s s3" by (simp add: continues_def s3_def)
  ultimately have "continues s s4" by (blast intro: continues_trans)
  then have "continues s (s4\<lparr>conversationMessages :=
      conversationMessages s4 @ [Message User (Blocks rs)]\<rparr>)"
    by (simp add: continues_def)
  moreover have "inspectTurn env req fm s = s4\<lparr>conversationMessages :=
      conversationMessages s4 @ [Message User (Blocks rs)]\<rparr>"
    using t al run by (simp add: inspectTurn_def Let_def s3_def[symmetric])
  ultimately show ?thesis by simp
qed

lemma iteration_with_tools:
  assumes "\<And>pr. completesWithToolUse (prov (Suc (iterationCount s)) pr)"
  shows "\<exists>s'. iteration prov env req model systemPrompt ts s = Inr s'
            \<and> continues s s' \<and> iterationCount s' = Suc (iterationCount s)"
proof -
  define pr where "pr = \<lparr>pr_model = model, pr_system = systemPrompt, pr_messages = view s,
                pr_tools = (if length ts > 0 then Some ts else None)\<rparr>"
  from assms[of pr] obtain fm where
    cb: "list_all (\<lambda>c. \<not> isOnError c) (callbacks (prov (Suc (iterationCount s)) pr))"
    and fm: "outcome (prov (Suc (iterationCount s)) pr) = Inr fm"
    and tu: "list_ex isToolUse (fm_content fm)"
    by (auto simp: completesWithToolUse_def split: sum.splits)
  from streamTurn_completes[where prov = prov and s = s and pr = pr and model = model
      and systemPrompt = systemPrompt and ts = ts, OF cb pr_def] fm obtain s1 where
    st: "streamTurn prov model systemPrompt ts s = (Inr fm, s1)"
    and c1: "continues s s1" and n1: "iterationCount s1 = Suc (iterationCount s)"
    by auto
  have "iteration prov env req model systemPrompt ts s = Inr (inspectTurn env req fm s1)"
    by (simp add: iteration_def st)
  moreover have "continues s (inspectTurn env req fm s1)"
    using c1 inspectTurn_with_tools[OF tu] by (blast intro: continues_trans)
  moreover have "iterationCount (inspectTurn env req fm s1) = Suc (iterationCount s)"
    by (simp add: iterationCount_inspectTurn n1)
  ultimately show ?thesis by blast
qed

lemma toolLoop_advances:
  assumes "\<And>n pr. n \<le> N \<Longrightarrow> completesWithToolUse (prov n pr)"
    and "continueLoop s" and "iterationCount s \<le> N" and "N \<le> maxIterations"
  shows "\<exists>s'. toolLoop prov env req model systemPrompt ts s
                = toolLoop prov env req model systemPrompt ts s'
            \<and> continues s s' \<and> iterationCount s' = N"
  using assms(2,3)
proof (induction "N - iterationCount s" arbitrary: s)
  case 0
  then have "iterationCount s = N" by simp
  then show ?case by (blast intro: continues_refl)
next
  case (Suc k)
  then have lt: "iterationCount s < N" by simp
  then have "\<And>pr. completesWithToolUse (prov (Suc (iterationCount s)) pr)"
    by (intro assms(1)) simp
  from iteration_with_tools[where prov = prov and s = s and env = env and req = req
      and model = model and systemPrompt = systemPrompt and ts = ts, OF this] obtain s1 where
    it: "iteration prov env req model systemPrompt ts s = Inr s1"
    and c1: "continues s s1" and n1: "iterationCount s1 = Suc (iterationCount s)"
    by blast
  from lt assms(4) Suc.prems(1)
  have unfold: "toolLoop prov env req model systemPrompt ts s
      = toolLoop prov env req model systemPrompt ts s1"
    by (subst toolLoop.simps) (simp add: it)
  have "k = N - iterationCount s1" using Suc.hyps(2) n1 by simp
  moreover have "continueLoop s1" using c1 Suc.prems(1) by (simp add: continues_def)
  moreover have "iterationCount s1 \<le> N" using lt n1 by simp
  ultimately obtain s' where
    "toolLoop prov env req model systemPrompt ts s1
       = toolLoop prov env req model systemPrompt ts s'"
    and "continues s1 s'" and "iterationCount s' = N"
    using Suc.hyps(1)[of s1] by blast
  with unfold c1 show ?case
    by (metis continues_trans)
qed


lemma toolLoop_at_cap:
  "iterationCount s = maxIterations \<Longrightarrow>
     toolLoop prov env req model systemPrompt ts s = Inr s"
  by (subst toolLoop.simps) simp

lemma events_continues:
  assumes "continues s s'" and "events s = pre @ evs" and "list_all (\<lambda>e. \<not> terminalEvent e) evs"
  shows "\<exists>evs'. events s' = pre @ evs' \<and> list_all (\<lambda>e. \<not> terminalEvent e) evs'"
  using assms by (auto simp: continues_def)

text \<open>The tool calls of a run and their events.\<close>

fun isToolCallEvent :: "event \<Rightarrow> bool" where
  "isToolCallEvent (EvToolCall i n a p) = True"
| "isToolCallEvent e = False"

fun isToolResultEvent :: "event \<Rightarrow> bool" where
  "isToolResultEvent (EvToolResult i n ok r e) = True"
| "isToolResultEvent e = False"

text \<open>Every call of \<open>executeToolCall\<close> so far has its \<open>tool_call\<close> and its \<open>tool_result\<close>
  event on the stream, and there are no others.\<close>

definition counted :: "loop_state \<Rightarrow> bool" where
  "counted s =
     (length (filter isToolCallEvent (events s)) = toolCalls s
      \<and> length (filter isToolResultEvent (events s)) = toolCalls s)"

lemma counted_onCallback: "counted (snd (onCallback c ts)) = counted (snd ts)"
  by (cases "(c, ts)" rule: onCallback.cases) (auto simp: counted_def enqueue_def Let_def)

lemma counted_callbacks: "counted (snd (fold onCallback cs ts)) = counted (snd ts)"
  by (induction cs arbitrary: ts) (auto simp: counted_onCallback)

lemma counted_runToolCalls:
  "counted s \<Longrightarrow> counted (snd (runToolCalls env req bs rs s))"
proof (induction env req bs rs s rule: runToolCalls.induct)
  case (2 env req i nm a rest toolResults s)
  define s1 where "s1 = enqueue (EvToolCall i nm (heap s a) False) s"
  obtain r h where ex: "executeToolCall (env (toolCalls s1)) req nm a (heap s1) = (r, h)"
    by (cases "executeToolCall (env (toolCalls s1)) req nm a (heap s1)")
  define s2 where "s2 = s1\<lparr>heap := h, toolCalls := Suc (toolCalls s1)\<rparr>"
  define s3 where "s3 = enqueue (EvToolResult i nm (success r) (result r) (error r)) s2"
  define rs where "rs = toolResults @
      [ToolResult i (if success r then ResultJson (result r) else ResultError (error r))]"
  have step: "runToolCalls env req (ToolUse i nm a # rest) toolResults s
      = runToolCalls env req rest rs s3"
    by (simp add: Let_def s1_def[symmetric] ex s2_def[symmetric] s3_def[symmetric] rs_def)
  from "2.prems" have "counted s3"
    by (simp add: counted_def s3_def s2_def s1_def enqueue_def)
  then have "counted (snd (runToolCalls env req rest rs s3))"
    by (rule "2.IH"[OF s1_def ex[symmetric] refl s2_def s3_def rs_def])
  then show ?case
    unfolding step .
qed (simp_all)

lemma counted_streamTurn:
  "counted s \<Longrightarrow> counted (snd (streamTurn prov model systemPrompt ts s))"
  by (simp add: streamTurn_def Let_def split_beta counted_callbacks) (simp add: counted_def)

lemma counted_inspectTurn:
  assumes "counted s"
  shows "counted (inspectTurn env req fm s)"
proof (cases "filter isToolUse (fm_content fm) \<noteq> []")
  case True
  obtain content h n where al: "alloc_blocks (fm_content fm) (heap s) (nextAddr s) = (content, h, n)"
    by (cases "alloc_blocks (fm_content fm) (heap s) (nextAddr s)")
  define s3 where "s3 = s\<lparr>heap := h, nextAddr := n,
      conversationMessages := conversationMessages s @ [Message Assistant (Blocks content)]\<rparr>"
  obtain rs s4 where run: "runToolCalls env req (filter isToolUse content) [] s3 = (rs, s4)"
    by (cases "runToolCalls env req (filter isToolUse content) [] s3")
  from assms have "counted s3" by (simp add: counted_def s3_def)
  from counted_runToolCalls[OF this, of env req "filter isToolUse content" "[]"] run
  have "counted s4" by simp
  then have "counted (s4\<lparr>conversationMessages :=
      conversationMessages s4 @ [Message User (Blocks rs)]\<rparr>)"
    by (simp add: counted_def)
  moreover have "inspectTurn env req fm s = s4\<lparr>conversationMessages :=
      conversationMessages s4 @ [Message User (Blocks rs)]\<rparr>"
    using True al run by (simp add: inspectTurn_def Let_def s3_def[symmetric])
  ultimately show ?thesis by simp
next
  case False
  with assms show ?thesis
    by (simp add: inspectTurn_def enqueue_def counted_def)
qed

lemma counted_iteration:
  assumes "counted s"
  shows "counted (stateOf (iteration prov env req model systemPrompt ts s))"
proof -
  obtain r s1 where st: "streamTurn prov model systemPrompt ts s = (r, s1)"
    by (cases "streamTurn prov model systemPrompt ts s")
  with counted_streamTurn[OF assms, of prov model systemPrompt ts] have "counted s1" by simp
  with st show ?thesis
    by (cases r) (simp_all add: iteration_def counted_inspectTurn)
qed

lemma counted_toolLoop:
  "counted s \<Longrightarrow> counted (stateOf (toolLoop prov env req model systemPrompt ts s))"
proof (induction prov env req model systemPrompt ts s rule: toolLoop.induct)
  case (1 prov env req model systemPrompt ts s)
  show ?case
  proof (cases "continueLoop s \<and> iterationCount s < maxIterations")
    case False
    then have "toolLoop prov env req model systemPrompt ts s = Inr s"
      by (subst toolLoop.simps) auto
    with "1.prems" show ?thesis by simp
  next
    case True
    show ?thesis
    proof (cases "iteration prov env req model systemPrompt ts s")
      case (Inl x)
      with True have "toolLoop prov env req model systemPrompt ts s = Inl x"
        by (subst toolLoop.simps) simp
      with counted_iteration[OF "1.prems", of prov env req model systemPrompt ts] Inl
      show ?thesis by simp
    next
      case (Inr s')
      with True have unfold: "toolLoop prov env req model systemPrompt ts s
          = toolLoop prov env req model systemPrompt ts s'"
        by (subst toolLoop.simps) simp
      from counted_iteration[OF "1.prems", of prov env req model systemPrompt ts] Inr
      have "counted s'" by simp
      from "1.IH"[OF True Inr this] show ?thesis
        by (simp add: unfold)
    qed
  qed
qed

lemma counted_openStream: "counted (openStream req model systemPrompt)"
  by (simp add: counted_def openStream_def enqueue_def Let_def split_beta)

text \<open>What one pass with tool calls adds.\<close>

lemma frame_onCallback:
  "conversationMessages (snd (onCallback c ts)) = conversationMessages (snd ts)
   \<and> toolCalls (snd (onCallback c ts)) = toolCalls (snd ts)"
  by (cases "(c, ts)" rule: onCallback.cases) (auto simp: enqueue_def Let_def)

lemma frame_callbacks:
  "conversationMessages (snd (fold onCallback cs ts)) = conversationMessages (snd ts)
   \<and> toolCalls (snd (fold onCallback cs ts)) = toolCalls (snd ts)"
  by (induction cs arbitrary: ts) (auto simp: frame_onCallback)

lemma frame_streamTurn:
  "conversationMessages (snd (streamTurn prov model systemPrompt ts s)) = conversationMessages s
   \<and> toolCalls (snd (streamTurn prov model systemPrompt ts s)) = toolCalls s"
  by (simp add: streamTurn_def Let_def split_beta frame_callbacks)

lemma runToolCalls_calls:
  "conversationMessages (snd (runToolCalls env req bs rs s)) = conversationMessages s
   \<and> toolCalls (snd (runToolCalls env req bs rs s)) = toolCalls s + length (filter isToolUse bs)"
proof (induction env req bs rs s rule: runToolCalls.induct)
  case (2 env req i nm a rest toolResults s)
  define s1 where "s1 = enqueue (EvToolCall i nm (heap s a) False) s"
  obtain r h where ex: "executeToolCall (env (toolCalls s1)) req nm a (heap s1) = (r, h)"
    by (cases "executeToolCall (env (toolCalls s1)) req nm a (heap s1)")
  define s2 where "s2 = s1\<lparr>heap := h, toolCalls := Suc (toolCalls s1)\<rparr>"
  define s3 where "s3 = enqueue (EvToolResult i nm (success r) (result r) (error r)) s2"
  define rs where "rs = toolResults @
      [ToolResult i (if success r then ResultJson (result r) else ResultError (error r))]"
  have step: "runToolCalls env req (ToolUse i nm a # rest) toolResults s
      = runToolCalls env req rest rs s3"
    by (simp add: Let_def s1_def[symmetric] ex s2_def[symmetric] s3_def[symmetric] rs_def)
  have "conversationMessages s3 = conversationMessages s" "toolCalls s3 = Suc (toolCalls s)"
    by (simp_all add: s3_def s2_def s1_def enqueue_def)
  with "2.IH"[OF s1_def ex[symmetric] refl s2_def s3_def rs_def] show ?case
    unfolding step by simp
qed (simp_all)

lemma alloc_blocks_tool_uses:
  "length (filter isToolUse (fst (alloc_blocks bs h n))) = length (filter isToolUse bs)"
  by (induction bs h n rule: alloc_blocks.induct) (simp_all add: split_beta fun_upd_def)

lemma inspectTurn_calls:
  assumes "list_ex isToolUse (fm_content fm)"
  shows "length (conversationMessages (inspectTurn env req fm s))
           = length (conversationMessages s) + 2
         \<and> toolCalls s < toolCalls (inspectTurn env req fm s)"
proof -
  from assms have t: "filter isToolUse (fm_content fm) \<noteq> []"
    by (simp add: list_ex_iff filter_empty_conv)
  obtain content h n where al: "alloc_blocks (fm_content fm) (heap s) (nextAddr s) = (content, h, n)"
    by (cases "alloc_blocks (fm_content fm) (heap s) (nextAddr s)")
  from alloc_blocks_tool_uses[of "fm_content fm" "heap s" "nextAddr s"] al t
  have some: "0 < length (filter isToolUse content)" by simp
  define s3 where "s3 = s\<lparr>heap := h, nextAddr := n,
      conversationMessages := conversationMessages s @ [Message Assistant (Blocks content)]\<rparr>"
  obtain rs s4 where run: "runToolCalls env req (filter isToolUse content) [] s3 = (rs, s4)"
    by (cases "runToolCalls env req (filter isToolUse content) [] s3")
  from runToolCalls_calls[of env req "filter isToolUse content" "[]" s3] run
  have "conversationMessages s4 = conversationMessages s3"
    and "toolCalls s4 = toolCalls s3 + length (filter isToolUse content)"
    by simp_all
  with some have "length (conversationMessages s4) = length (conversationMessages s) + 1"
    and "toolCalls s < toolCalls s4"
    by (simp_all add: s3_def)
  moreover have "inspectTurn env req fm s = s4\<lparr>conversationMessages :=
      conversationMessages s4 @ [Message User (Blocks rs)]\<rparr>"
    using t al run by (simp add: inspectTurn_def Let_def s3_def[symmetric])
  ultimately show ?thesis by simp
qed

text \<open>\<open>k\<close> passes with tool calls lie between \<open>s\<close> and \<open>s'\<close>: \<open>k\<close> requests went to the
  provider, each with two messages more than the one before (the assistant's turn and
  the tool results), and each pass called at least one tool.\<close>

definition worked :: "nat \<Rightarrow> loop_state \<Rightarrow> loop_state \<Rightarrow> bool" where
  "worked k s s' =
     (\<exists>rs. requests s' = requests s @ rs
         \<and> map (\<lambda>r. length (pr_messages r)) rs
             = map (\<lambda>n. length (conversationMessages s) + 2 * n) [0..<k]
         \<and> length (conversationMessages s') = length (conversationMessages s) + 2 * k
         \<and> toolCalls s + k \<le> toolCalls s')"

lemma worked_refl: "worked 0 s s"
  by (simp add: worked_def)

lemma worked_step:
  assumes "worked 1 s s1" and "worked k s1 s2"
  shows "worked (Suc k) s s2"
proof -
  from assms(1) obtain r where r: "requests s1 = requests s @ [r]"
    and lr: "length (pr_messages r) = length (conversationMessages s)"
    and c1: "length (conversationMessages s1) = length (conversationMessages s) + 2"
    and t1: "toolCalls s + 1 \<le> toolCalls s1"
    by (auto simp: worked_def map_eq_Cons_conv)
  from assms(2) obtain rs where rs: "requests s2 = requests s1 @ rs"
    and lrs: "map (\<lambda>r. length (pr_messages r)) rs
             = map (\<lambda>n. length (conversationMessages s1) + 2 * n) [0..<k]"
    and c2: "length (conversationMessages s2) = length (conversationMessages s1) + 2 * k"
    and t2: "toolCalls s1 + k \<le> toolCalls s2"
    by (auto simp: worked_def)
  have "map (\<lambda>r. length (pr_messages r)) (r # rs)
      = map (\<lambda>n. length (conversationMessages s) + 2 * n) [0..<Suc k]"
    by (simp only: map_upt_Suc list.map lr lrs c1) simp
  moreover have "requests s2 = requests s @ (r # rs)"
    by (simp add: rs r)
  moreover have "length (conversationMessages s2) = length (conversationMessages s) + 2 * Suc k"
    by (simp add: c2 c1)
  moreover have "toolCalls s + Suc k \<le> toolCalls s2"
    using t1 t2 by simp
  ultimately show ?thesis
    unfolding worked_def by blast
qed

lemma iteration_works:
  assumes "\<And>pr. completesWithToolUse (prov (Suc (iterationCount s)) pr)"
  shows "\<exists>s'. iteration prov env req model systemPrompt ts s = Inr s'
            \<and> continues s s' \<and> iterationCount s' = Suc (iterationCount s) \<and> worked 1 s s'"
proof -
  define pr where "pr = \<lparr>pr_model = model, pr_system = systemPrompt, pr_messages = view s,
                pr_tools = (if length ts > 0 then Some ts else None)\<rparr>"
  from assms[of pr] obtain fm where
    cb: "list_all (\<lambda>c. \<not> isOnError c) (callbacks (prov (Suc (iterationCount s)) pr))"
    and fm: "outcome (prov (Suc (iterationCount s)) pr) = Inr fm"
    and tu: "list_ex isToolUse (fm_content fm)"
    by (auto simp: completesWithToolUse_def split: sum.splits)
  from streamTurn_completes[where prov = prov and s = s and pr = pr and model = model
      and systemPrompt = systemPrompt and ts = ts, OF cb pr_def] fm obtain s1 where
    st: "streamTurn prov model systemPrompt ts s = (Inr fm, s1)"
    and c1: "continues s s1" and n1: "iterationCount s1 = Suc (iterationCount s)"
    by auto
  let ?s' = "inspectTurn env req fm s1"
  have it: "iteration prov env req model systemPrompt ts s = Inr ?s'"
    by (simp add: iteration_def st)
  have "continues s ?s'"
    using c1 inspectTurn_with_tools[OF tu] by (blast intro: continues_trans)
  moreover have "iterationCount ?s' = Suc (iterationCount s)"
    by (simp add: iterationCount_inspectTurn n1)
  moreover have "worked 1 s ?s'"
  proof -
    from requests_iteration[of prov env req model systemPrompt ts s] it
    have "requests ?s' = requests s @ [pr]"
      by (simp add: pr_def)
    moreover have "length (pr_messages pr) = length (conversationMessages s)"
      by (simp add: pr_def view_def)
    moreover from frame_streamTurn[of prov model systemPrompt ts s] st
    have "conversationMessages s1 = conversationMessages s" and "toolCalls s1 = toolCalls s"
      by simp_all
    with inspectTurn_calls[OF tu, of env req s1]
    have "length (conversationMessages ?s') = length (conversationMessages s) + 2"
      and "toolCalls s + 1 \<le> toolCalls ?s'"
      by simp_all
    ultimately show ?thesis
      unfolding worked_def by (intro exI[of _ "[pr]"]) simp
  qed
  ultimately show ?thesis using it by blast
qed

lemma toolLoop_works:
  assumes "\<And>n pr. n \<le> N \<Longrightarrow> completesWithToolUse (prov n pr)"
    and "continueLoop s" and "iterationCount s \<le> N" and "N \<le> maxIterations"
  shows "\<exists>s'. toolLoop prov env req model systemPrompt ts s
                = toolLoop prov env req model systemPrompt ts s'
            \<and> continues s s' \<and> iterationCount s' = N \<and> worked (N - iterationCount s) s s'"
  using assms(2,3)
proof (induction "N - iterationCount s" arbitrary: s)
  case 0
  then have "iterationCount s = N" by simp
  then show ?case
    by (intro exI[of _ s]) (simp add: continues_refl worked_refl)
next
  case (Suc k)
  then have lt: "iterationCount s < N" by simp
  then have "\<And>pr. completesWithToolUse (prov (Suc (iterationCount s)) pr)"
    by (intro assms(1)) simp
  from iteration_works[where prov = prov and s = s and env = env and req = req
      and model = model and systemPrompt = systemPrompt and ts = ts, OF this] obtain s1 where
    it: "iteration prov env req model systemPrompt ts s = Inr s1"
    and c1: "continues s s1" and n1: "iterationCount s1 = Suc (iterationCount s)"
    and w1: "worked 1 s s1"
    by blast
  from lt assms(4) Suc.prems(1)
  have unfold: "toolLoop prov env req model systemPrompt ts s
      = toolLoop prov env req model systemPrompt ts s1"
    by (subst toolLoop.simps) (simp add: it)
  have k: "k = N - iterationCount s1" using Suc.hyps(2) n1 by simp
  moreover have "continueLoop s1" using c1 Suc.prems(1) by (simp add: continues_def)
  moreover have "iterationCount s1 \<le> N" using lt n1 by simp
  ultimately obtain s' where
    l: "toolLoop prov env req model systemPrompt ts s1
       = toolLoop prov env req model systemPrompt ts s'"
    and c: "continues s1 s'" and n: "iterationCount s' = N"
    and w: "worked (N - iterationCount s1) s1 s'"
    using Suc.hyps(1)[of s1] by blast
  from w1 w k Suc.hyps(2) have "worked (N - iterationCount s) s s'"
    using worked_step[of s s1 k s'] by simp
  with unfold l c1 c n show ?case
    by (metis continues_trans)
qed

lemma length_alloc_messages: "length (fst (alloc_messages ms h n)) = length ms"
proof (induction ms arbitrary: h n)
  case Nil
  then show ?case by simp
next
  case (Cons m ms)
  obtain r c where m: "m = Message r c" by (cases m)
  show ?case
    by (cases c) (simp_all add: m split_beta Cons.IH)
qed

text \<open>
  C1. Let every turn of the provider complete (no \<open>error\<close> callback, \<open>finalMessage()\<close>
  resolves) with at least one \<open>tool_use\<close> block, and let the tools convert, so that the
  stream exists. Then the loop returns after exactly 10 iterations: 10 requests went to
  the provider, each with two messages more than the one before, the conversation has
  grown by the user's message and 20 turns, and at least 10 tool calls were made, each
  with its \<open>tool_call\<close> and its \<open>tool_result\<close> event. The closed stream is the \<open>start\<close>
  event, events that are neither \<open>error\<close> nor \<open>done\<close>, the \<open>error\<close> event that names the
  cap, and one \<open>done\<close> event. (What a tool returns is a JSON value, so no
  \<open>JSON.stringify\<close> of a result throws and leaves the loop early.)
\<close>

theorem loop_stops_at_iteration_cap:
  assumes "\<And>n pr. n \<le> 10 \<Longrightarrow> completesWithToolUse (prov n pr)"
    and "convertToolsToAnthropic re (toolsToConvert req) = Some ts"
  shows "\<exists>s evs.
           createAnthropicStream re prov env req model systemPrompt = Some s
         \<and> iterationCount s = 10
         \<and> length (requests s) = 10
         \<and> map (\<lambda>r. length (pr_messages r)) (requests s)
             = map (\<lambda>n. length (orEmpty (conversationHistory req)) + 1 + 2 * n) [0..<10]
         \<and> length (conversationMessages s) = length (orEmpty (conversationHistory req)) + 21
         \<and> 10 \<le> toolCalls s
         \<and> length (filter isToolCallEvent evs) = toolCalls s
         \<and> length (filter isToolResultEvent evs) = toolCalls s
         \<and> closed s
         \<and> events s = EvStart model ''anthropic'' systemPrompt # evs
                         @ [maxIterationsError, EvDone None]
         \<and> list_all (\<lambda>e. \<not> terminalEvent e) evs"
proof -
  let ?s0 = "openStream req model systemPrompt"
  let ?h = "length (orEmpty (conversationHistory req))"
  have init: "continueLoop ?s0" "iterationCount ?s0 = 0"
    "events ?s0 = [EvStart model ''anthropic'' systemPrompt] @ []"
    "requests ?s0 = []" "toolCalls ?s0 = 0"
    by (simp_all add: openStream_def enqueue_def Let_def split_beta)
  have conv0: "length (conversationMessages ?s0) = ?h + 1"
    by (simp add: openStream_def enqueue_def Let_def split_beta length_alloc_messages)
  have "\<exists>s'. toolLoop prov env req model systemPrompt ts ?s0
                = toolLoop prov env req model systemPrompt ts s'
            \<and> continues ?s0 s' \<and> iterationCount s' = 10
            \<and> worked (10 - iterationCount ?s0) ?s0 s'"
    by (rule toolLoop_works) (use assms(1) init in \<open>simp_all add: maxIterations_def\<close>)
  then obtain s1 where loop: "toolLoop prov env req model systemPrompt ts ?s0 = Inr s1"
    and c: "continues ?s0 s1" and cnt: "iterationCount s1 = 10"
    and w: "worked 10 ?s0 s1"
    by (auto simp: toolLoop_at_cap maxIterations_def init)
  from events_continues[OF c init(3)] obtain evs where
    ev: "events s1 = [EvStart model ''anthropic'' systemPrompt] @ evs"
    and quiet: "list_all (\<lambda>e. \<not> terminalEvent e) evs"
    by auto
  from w have rq: "map (\<lambda>r. length (pr_messages r)) (requests s1)
        = map (\<lambda>n. ?h + 1 + 2 * n) [0..<10]"
    and cv: "length (conversationMessages s1) = ?h + 21"
    and tc: "10 \<le> toolCalls s1"
    by (auto simp: worked_def init conv0)
  from rq have len: "length (requests s1) = 10"
    by (metis length_map length_upt diff_zero)
  from counted_toolLoop[OF counted_openStream, of prov env req model systemPrompt ts req model systemPrompt]
  have "counted s1" by (simp add: loop)
  then have ce: "length (filter isToolCallEvent evs) = toolCalls s1"
    and re: "length (filter isToolResultEvent evs) = toolCalls s1"
    by (simp_all add: counted_def ev)
  define s2 where "s2 = (enqueue (EvDone None) (enqueue maxIterationsError s1))\<lparr>closed := True\<rparr>"
  have "createAnthropicStream re prov env req model systemPrompt = Some s2"
    by (simp add: createAnthropicStream_def assms(2) closeStream_def loop cnt
        maxIterations_def s2_def)
  moreover have "iterationCount s2 = 10" "closed s2"
    "events s2 = EvStart model ''anthropic'' systemPrompt # evs @ [maxIterationsError, EvDone None]"
    "requests s2 = requests s1" "conversationMessages s2 = conversationMessages s1"
    "toolCalls s2 = toolCalls s1"
    by (simp_all add: s2_def enqueue_def cnt ev)
  ultimately show ?thesis
    using quiet rq cv tc len ce re
    by (intro exI[of _ s2] exI[of _ evs]) simp
qed


lemma convert_no_tools:
  "convertToolsToAnthropic exampleRegExp (toolsToConvert smallRequest) = Some []"
  by (simp add: convertToolsToAnthropic_def toolsToConvert_def smallRequest_def orEmpty_def
      MAX_TOOLS_def)

theorem loop_stops_at_iteration_cap_witness:
  "(\<forall>n pr. completesWithToolUse (insistentProvider n pr))
   \<and> convertToolsToAnthropic exampleRegExp (toolsToConvert smallRequest) = Some []
   \<and> map_option (\<lambda>s. (iterationCount s, length (requests s), length (conversationMessages s),
                       10 \<le> toolCalls s, closed s, drop (length (events s) - 2) (events s)))
        (createAnthropicStream exampleRegExp insistentProvider (\<lambda>n. echoEnv) smallRequest
           ''claude'' ''prompt'')
       = Some (10, 10, 21, True, True, [maxIterationsError, EvDone None])"
proof -
  have h: "completesWithToolUse (insistentProvider n pr)" for n pr
    by (simp add: completesWithToolUse_def insistentProvider_def toolTurn_def)
  have hist: "orEmpty (conversationHistory smallRequest) = []"
    by (simp add: smallRequest_def orEmpty_def)
  from loop_stops_at_iteration_cap[of insistentProvider exampleRegExp smallRequest "[]"
      "\<lambda>n. echoEnv" "''claude''" "''prompt''", OF h convert_no_tools]
  obtain s evs where
    "createAnthropicStream exampleRegExp insistentProvider (\<lambda>n. echoEnv) smallRequest
       ''claude'' ''prompt'' = Some s"
    and "iterationCount s = 10" and "length (requests s) = 10"
    and "length (conversationMessages s) = length (orEmpty (conversationHistory smallRequest)) + 21"
    and "10 \<le> toolCalls s" and "closed s"
    and "events s = EvStart ''claude'' ''anthropic'' ''prompt'' # evs
           @ [maxIterationsError, EvDone None]"
    by blast
  with h convert_no_tools hist show ?thesis
    by simp
qed

lemma inspectTurn_without_tools:
  assumes "\<not> list_ex isToolUse (fm_content fm)"
  shows "inspectTurn env req fm s =
           enqueue (EvDone (Some (stop_reason fm, usage fm))) (s\<lparr>continueLoop := False\<rparr>)"
proof -
  from assms have "filter isToolUse (fm_content fm) = []"
    by (simp add: list_ex_iff filter_empty_conv)
  then show ?thesis by (simp add: inspectTurn_def)
qed

lemma iteration_without_tools:
  assumes "\<And>pr. completesWithoutToolUse (prov (Suc (iterationCount s)) pr)"
  shows "\<exists>s1 pr fm. iteration prov env req model systemPrompt ts s
                = Inr (enqueue (EvDone (Some (stop_reason fm, usage fm)))
                        (s1\<lparr>continueLoop := False\<rparr>))
            \<and> outcome (prov (Suc (iterationCount s)) pr) = Inr fm
            \<and> continues s s1 \<and> iterationCount s1 = Suc (iterationCount s)"
proof -
  define pr where "pr = \<lparr>pr_model = model, pr_system = systemPrompt, pr_messages = view s,
                pr_tools = (if length ts > 0 then Some ts else None)\<rparr>"
  from assms[of pr] obtain fm where
    cb: "list_all (\<lambda>c. \<not> isOnError c) (callbacks (prov (Suc (iterationCount s)) pr))"
    and fm: "outcome (prov (Suc (iterationCount s)) pr) = Inr fm"
    and tu: "\<not> list_ex isToolUse (fm_content fm)"
    by (auto simp: completesWithoutToolUse_def split: sum.splits)
  from streamTurn_completes[where prov = prov and s = s and pr = pr and model = model
      and systemPrompt = systemPrompt and ts = ts, OF cb pr_def] fm obtain s1 where
    st: "streamTurn prov model systemPrompt ts s = (Inr fm, s1)"
    and c1: "continues s s1" and n1: "iterationCount s1 = Suc (iterationCount s)"
    by auto
  have "iteration prov env req model systemPrompt ts s
      = Inr (enqueue (EvDone (Some (stop_reason fm, usage fm))) (s1\<lparr>continueLoop := False\<rparr>))"
    by (simp add: iteration_def st inspectTurn_without_tools[OF tu])
  with fm c1 n1 show ?thesis by blast
qed

text \<open>
  C9. Let the first nine turns complete with a \<open>tool_use\<close> block and the tenth complete
  without one. Then the closed stream ends with three events: the \<open>done\<close> event of the
  tenth turn, with its stop reason and usage, the \<open>error\<close> event that names the cap,
  and a second \<open>done\<close> event.
\<close>

theorem tenth_turn_without_tool_use_ends_with_two_done_events:
  assumes "\<And>n pr. n < 10 \<Longrightarrow> completesWithToolUse (prov n pr)"
    and "\<And>pr. completesWithoutToolUse (prov 10 pr)"
    and "convertToolsToAnthropic re (toolsToConvert req) = Some ts"
  shows "\<exists>s evs pr fm.
           createAnthropicStream re prov env req model systemPrompt = Some s
         \<and> outcome (prov 10 pr) = Inr fm
         \<and> iterationCount s = 10
         \<and> closed s
         \<and> events s = evs @ [EvDone (Some (stop_reason fm, usage fm)),
                              maxIterationsError, EvDone None]"
proof -
  let ?s0 = "openStream req model systemPrompt"
  have init: "continueLoop ?s0" "iterationCount ?s0 = 0"
    by (simp_all add: openStream_def enqueue_def Let_def split_beta)
  have "\<exists>s'. toolLoop prov env req model systemPrompt ts ?s0
                = toolLoop prov env req model systemPrompt ts s'
            \<and> continues ?s0 s' \<and> iterationCount s' = 9"
    by (rule toolLoop_advances) (use assms(1) init in \<open>simp_all add: maxIterations_def\<close>)
  then obtain s9 where loop9: "toolLoop prov env req model systemPrompt ts ?s0
        = toolLoop prov env req model systemPrompt ts s9"
    and c9: "continues ?s0 s9" and cnt9: "iterationCount s9 = 9"
    by blast
  from c9 init have go: "continueLoop s9" by (simp add: continues_def)
  have "\<And>pr. completesWithoutToolUse (prov (Suc (iterationCount s9)) pr)"
    using assms(2) by (simp add: cnt9)
  from iteration_without_tools[where prov = prov and s = s9 and env = env and req = req
      and model = model and systemPrompt = systemPrompt and ts = ts, OF this]
  obtain s1 pr fm where
    it: "iteration prov env req model systemPrompt ts s9
           = Inr (enqueue (EvDone (Some (stop_reason fm, usage fm)))
                   (s1\<lparr>continueLoop := False\<rparr>))"
    and fm: "outcome (prov 10 pr) = Inr fm"
    and cnt1: "iterationCount s1 = 10"
    by (auto simp: cnt9)
  define s10 where "s10 = enqueue (EvDone (Some (stop_reason fm, usage fm)))
                   (s1\<lparr>continueLoop := False\<rparr>)"
  have cnt10: "iterationCount s10 = 10"
    by (simp add: s10_def enqueue_def cnt1)
  have "toolLoop prov env req model systemPrompt ts s9
      = toolLoop prov env req model systemPrompt ts s10"
    by (subst toolLoop.simps) (simp add: go cnt9 maxIterations_def it s10_def)
  also have "\<dots> = Inr s10"
    by (rule toolLoop_at_cap) (simp add: cnt10 maxIterations_def)
  finally have loop: "toolLoop prov env req model systemPrompt ts ?s0 = Inr s10"
    using loop9 by simp
  define s where "s = (enqueue (EvDone None) (enqueue maxIterationsError s10))\<lparr>closed := True\<rparr>"
  have "createAnthropicStream re prov env req model systemPrompt = Some s"
    by (simp add: createAnthropicStream_def assms(3) closeStream_def loop cnt10
        maxIterations_def s_def)
  moreover have "iterationCount s = 10" "closed s"
    "events s = events s1 @ [EvDone (Some (stop_reason fm, usage fm)),
                              maxIterationsError, EvDone None]"
    by (simp_all add: s_def s10_def enqueue_def cnt1)
  ultimately show ?thesis using fm by blast
qed

theorem tenth_turn_without_tool_use_ends_with_two_done_events_witness:
  "(\<forall>n pr. completesWithToolUse (providerDoneAt 10 (min n 9) pr))
   \<and> (\<forall>pr. completesWithoutToolUse (providerDoneAt 10 10 pr))
   \<and> convertToolsToAnthropic exampleRegExp (toolsToConvert smallRequest) = Some []
   \<and> map_option (\<lambda>s. (iterationCount s, closed s, drop (length (events s) - 3) (events s)))
        (createAnthropicStream exampleRegExp (providerDoneAt 10) (\<lambda>n. echoEnv) smallRequest
           ''claude'' ''prompt'')
       = Some (10, True, [EvDone (Some (Some ''end_turn'', 12, 3)), maxIterationsError,
                          EvDone None])"
proof -
  have h1: "completesWithToolUse (providerDoneAt 10 n pr)" if "n < 10" for n pr
    using that by (simp add: completesWithToolUse_def providerDoneAt_def toolTurn_def)
  have h2: "completesWithoutToolUse (providerDoneAt 10 10 pr)" for pr
    by (simp add: completesWithoutToolUse_def providerDoneAt_def plainTurn_def)
  from tenth_turn_without_tool_use_ends_with_two_done_events[of "providerDoneAt 10"
      exampleRegExp smallRequest "[]" "\<lambda>n. echoEnv" "''claude''" "''prompt''",
      OF h1 h2 convert_no_tools]
  obtain s evs pr fm where
    "createAnthropicStream exampleRegExp (providerDoneAt 10) (\<lambda>n. echoEnv) smallRequest
       ''claude'' ''prompt'' = Some s"
    and "outcome (providerDoneAt 10 10 pr) = Inr fm"
    and "iterationCount s = 10" and "closed s"
    and "events s = evs @ [EvDone (Some (stop_reason fm, usage fm)),
                           maxIterationsError, EvDone None]"
    by blast
  moreover have "completesWithToolUse (providerDoneAt 10 (min n 9) pr)" for n pr
    by (rule h1) simp
  ultimately show ?thesis using h2 convert_no_tools
    by (auto simp: providerDoneAt_def plainTurn_def)
qed


section \<open>The conversation as a log\<close>

text \<open>
  C4. The provider's first turn asks for the registry tool \<open>search\<close> with the empty
  input \<open>{}\<close>, and that turn is appended to the conversation as it came (line 1263).
  When the loop has ended, the same turn of the conversation holds the input
  \<open>{_context: {workflowId, userId}}\<close>: \<open>executeToolCall\<close> wrote into the object that
  the appended block shares (lines 1017 and 1022), so the turn was changed in place.
\<close>

theorem tool_call_rewrites_appended_turn:
  "outcome (providerDoneAt 2 1 pr)
     = Inr \<lparr>fm_content = [ToolUse ''call-1'' ''search'' []],
            stop_reason = Some ''tool_use'', usage = (10, 5)\<rparr>
   \<and> map_option view
        (createAnthropicStream exampleRegExp (providerDoneAt 2) (\<lambda>n. echoEnv) smallRequest
           ''claude'' ''prompt'')
       = Some [Message User (Plain ''hi''),
               Message Assistant (Blocks [ToolUse ''call-1'' ''search''
                 [(''_context'', JObject [(''workflowId'', JString ''wf-1''),
                                          (''userId'', JString ''user-1'')])]]),
               Message User (Blocks [ToolResult ''call-1''
                 (ResultJson (Some (JObject
                    [(''_context'', JObject [(''workflowId'', JString ''wf-1''),
                                             (''userId'', JString ''user-1'')])])))])]"
proof
  show "outcome (providerDoneAt 2 1 pr)
     = Inr \<lparr>fm_content = [ToolUse ''call-1'' ''search'' []],
            stop_reason = Some ''tool_use'', usage = (10, 5)\<rparr>"
    by (simp add: providerDoneAt_def toolTurn_def)
  show "map_option view
        (createAnthropicStream exampleRegExp (providerDoneAt 2) (\<lambda>n. echoEnv) smallRequest
           ''claude'' ''prompt'')
       = Some [Message User (Plain ''hi''),
               Message Assistant (Blocks [ToolUse ''call-1'' ''search''
                 [(''_context'', JObject [(''workflowId'', JString ''wf-1''),
                                          (''userId'', JString ''user-1'')])]]),
               Message User (Blocks [ToolResult ''call-1''
                 (ResultJson (Some (JObject
                    [(''_context'', JObject [(''workflowId'', JString ''wf-1''),
                                             (''userId'', JString ''user-1'')])])))])]"
    by code_simp
qed


section \<open>The schema normalizer: what a run leaves behind\<close>

text \<open>The object as it stands when the recursive steps begin (lines 736-802).\<close>

definition prepared :: "json \<Rightarrow> obj" where
  "prepared schema =
     removeNullable (normalizeType (removeDisallowed
       (obj_delete (obj_spread [] (entries schema)) ''$schema'')))"

text \<open>The steps of lines 804-892, with \<open>f\<close> for the recursive call.\<close>

definition cleanSteps :: "(json \<Rightarrow> json option) \<Rightarrow> (string \<Rightarrow> bool) \<Rightarrow> obj \<Rightarrow> obj option" where
  "cleanSteps f validRegExp c1 =
     do {
       c2 \<leftarrow> cleanProperties f c1;
       c4 \<leftarrow> cleanItems f (onlyArrayItems c2);
       c6 \<leftarrow> cleanCombinator f ''anyOf'' (cleanRequired c4);
       c7 \<leftarrow> cleanCombinator f ''oneOf'' c6;
       c8 \<leftarrow> cleanCombinator f ''allOf'' c7;
       c9 \<leftarrow> cleanNot f c8;
       removeEmpty (fixPattern validRegExp c9)
     }"

lemma cleanJsonSchema_steps:
  "cleanJsonSchema re schema =
     (if \<not> truthy schema \<or> \<not> typeof_object schema then Some schema
      else map_option JObject (cleanSteps (cleanJsonSchema re) re (prepared schema)))"
  by (subst cleanJsonSchema.simps)
     (simp add: cleanSteps_def prepared_def Let_def map_option_case
       split: Option.bind_split option.split)

lemma cleanJsonSchema_primitive:
  "\<not> truthy schema \<or> \<not> typeof_object schema \<Longrightarrow> cleanJsonSchema re schema = Some schema"
  by (simp add: cleanJsonSchema_steps)

lemma cleanJsonSchema_shape:
  assumes "cleanJsonSchema re v = Some v'"
  shows "truthy v' = truthy v \<and> (\<forall>vs. v' = JArray vs \<longrightarrow> \<not> truthy v \<or> \<not> typeof_object v)"
proof (cases "\<not> truthy v \<or> \<not> typeof_object v")
  case True
  with assms show ?thesis by (auto simp: cleanJsonSchema_steps)
next
  case False
  with assms obtain c where "v' = JObject c"
    by (auto simp: cleanJsonSchema_steps)
  with False show ?thesis by simp
qed

subsection \<open>Objects with distinct, allowed keys\<close>

definition wf_obj :: "obj \<Rightarrow> bool" where
  "wf_obj c = (distinct (map fst c) \<and> fst ` set c \<subseteq> set allowedTopLevelProps)"

lemma distinct_obj_set: "distinct (map fst c) \<Longrightarrow> distinct (map fst (obj_set c k v))"
  by (simp add: obj_set_def distinct_update)

lemma distinct_obj_delete: "distinct (map fst c) \<Longrightarrow> distinct (map fst (obj_delete c k))"
  by (simp add: obj_delete_def distinct_delete)

lemma keys_obj_set: "fst ` set (obj_set c k v) = insert k (fst ` set c)"
  by (simp add: obj_set_def dom_update)

lemma keys_obj_delete: "fst ` set (obj_delete c k) \<subseteq> fst ` set c"
  by (simp add: obj_delete_def dom_delete_subset)

lemma distinct_obj_spread:
  "distinct (map fst t) \<Longrightarrow> distinct (map fst (obj_spread t s))"
proof (induction s arbitrary: t)
  case Nil
  then show ?case by (simp add: obj_spread_def)
next
  case (Cons e s)
  obtain k v where e: "e = (k, v)" by (cases e)
  from Cons.IH[OF distinct_obj_set[OF Cons.prems, of k v]] show ?case
    by (simp add: obj_spread_def e)
qed

lemma obj_set_fresh: "k \<notin> fst ` set c \<Longrightarrow> obj_set c k v = c @ [(k, v)]"
  by (induction c) (auto simp: obj_set_def)

lemma obj_set_same: "obj_get c k = Some v \<Longrightarrow> obj_set c k v = c"
  by (simp add: obj_get_def obj_set_def update_triv)

lemma obj_delete_absent: "obj_get c k = None \<Longrightarrow> obj_delete c k = c"
  by (simp add: obj_get_def obj_delete_def map_of_eq_None_iff)

lemma obj_spread_distinct_append:
  "distinct (map fst (t @ s)) \<Longrightarrow> obj_spread t s = t @ s"
proof (induction s arbitrary: t)
  case Nil
  then show ?case by (simp add: obj_spread_def)
next
  case (Cons e s)
  obtain k v where e: "e = (k, v)" by (cases e)
  from Cons.prems have fresh: "k \<notin> fst ` set t" by (auto simp: e)
  from Cons.prems have "distinct (map fst ((t @ [(k, v)]) @ s))" by (simp add: e)
  from Cons.IH[OF this] show ?case
    by (simp add: obj_spread_def e obj_set_fresh[OF fresh])
qed

lemma obj_spread_distinct: "distinct (map fst s) \<Longrightarrow> obj_spread [] s = s"
  using obj_spread_distinct_append[of "[]" s] by simp

lemma wf_obj_set: "wf_obj c \<Longrightarrow> k \<in> set allowedTopLevelProps \<Longrightarrow> wf_obj (obj_set c k v)"
  by (simp add: wf_obj_def distinct_obj_set keys_obj_set)

lemma wf_obj_delete: "wf_obj c \<Longrightarrow> wf_obj (obj_delete c k)"
  using keys_obj_delete[of c k] by (auto simp: wf_obj_def distinct_obj_delete)

lemma allowed_keys [simp]:
  "''type'' \<in> set allowedTopLevelProps" "''properties'' \<in> set allowedTopLevelProps"
  "''items'' \<in> set allowedTopLevelProps" "''required'' \<in> set allowedTopLevelProps"
  "''anyOf'' \<in> set allowedTopLevelProps" "''oneOf'' \<in> set allowedTopLevelProps"
  "''allOf'' \<in> set allowedTopLevelProps" "''not'' \<in> set allowedTopLevelProps"
  "''pattern'' \<in> set allowedTopLevelProps"
  "''$schema'' \<notin> set allowedTopLevelProps" "''nullable'' \<notin> set allowedTopLevelProps"
  by (simp_all add: allowedTopLevelProps_def)

lemma wf_removeDisallowed: "distinct (map fst c) \<Longrightarrow> wf_obj (removeDisallowed c)"
  by (auto simp: wf_obj_def removeDisallowed_def distinct_map_filter)

lemma wf_normalizeType: "wf_obj c \<Longrightarrow> wf_obj (normalizeType c)"
  by (auto simp: normalizeType_def wf_obj_set split: option.splits json.splits)

lemma wf_removeNullable: "wf_obj c \<Longrightarrow> wf_obj (removeNullable c)"
  by (simp add: removeNullable_def wf_obj_delete)

lemma wf_prepared: "wf_obj (prepared schema)"
  unfolding prepared_def
  by (intro wf_removeNullable wf_normalizeType wf_removeDisallowed distinct_obj_delete
      distinct_obj_spread) simp

lemma wf_cleanProperties: "wf_obj c \<Longrightarrow> cleanProperties f c = Some c' \<Longrightarrow> wf_obj c'"
  by (auto simp: cleanProperties_def wf_obj_set split: option.splits if_splits)

lemma wf_onlyArrayItems: "wf_obj c \<Longrightarrow> wf_obj (onlyArrayItems c)"
  by (auto simp: onlyArrayItems_def wf_obj_delete split: option.splits)

lemma wf_cleanItems: "wf_obj c \<Longrightarrow> cleanItems f c = Some c' \<Longrightarrow> wf_obj c'"
  by (auto simp: cleanItems_def wf_obj_set split: option.splits if_splits json.splits)

lemma wf_cleanRequired: "wf_obj c \<Longrightarrow> wf_obj (cleanRequired c)"
  by (auto simp: cleanRequired_def wf_obj_set wf_obj_delete Let_def split: option.splits json.splits)

lemma wf_cleanCombinator:
  "wf_obj c \<Longrightarrow> key \<in> set allowedTopLevelProps \<Longrightarrow> cleanCombinator f key c = Some c' \<Longrightarrow> wf_obj c'"
  by (auto simp: cleanCombinator_def wf_obj_set split: option.splits if_splits json.splits)

lemma wf_cleanNot: "wf_obj c \<Longrightarrow> cleanNot f c = Some c' \<Longrightarrow> wf_obj c'"
  by (auto simp: cleanNot_def wf_obj_set split: option.splits if_splits)

lemma wf_fixPattern: "wf_obj c \<Longrightarrow> wf_obj (fixPattern re c)"
  by (auto simp: fixPattern_def wf_obj_set wf_obj_delete Let_def split: option.splits json.splits)

subsection \<open>The final pass\<close>

lemma removeEmpty_subset: "removeEmpty c = Some c' \<Longrightarrow> set c' \<subseteq> set c"
proof (induction c arbitrary: c')
  case Nil
  then show ?case by simp
next
  case (Cons e c)
  obtain k v where e: "e = (k, v)" by (cases e)
  from Cons.prems obtain gone rest where
    "removeEmptyKey k v = Some gone" "removeEmpty c = Some rest"
    "c' = (if gone then rest else (k, v) # rest)"
    by (auto simp: e split: Option.bind_splits)
  with Cons.IH[of rest] show ?case by (auto simp: e)
qed

lemma removeEmpty_distinct:
  "removeEmpty c = Some c' \<Longrightarrow> distinct (map fst c) \<Longrightarrow> distinct (map fst c')"
proof (induction c arbitrary: c')
  case Nil
  then show ?case by simp
next
  case (Cons e c)
  obtain k v where e: "e = (k, v)" by (cases e)
  from Cons.prems(1) obtain gone rest where
    r: "removeEmpty c = Some rest" and c': "c' = (if gone then rest else (k, v) # rest)"
    by (auto simp: e split: Option.bind_splits)
  from Cons.prems(2) have d: "distinct (map fst c)" and k: "k \<notin> fst ` set c"
    by (auto simp: e)
  from removeEmpty_subset[OF r] k have "k \<notin> fst ` set rest" by auto
  with Cons.IH[OF r d] show ?case by (auto simp: c')
qed

lemma wf_removeEmpty: "wf_obj c \<Longrightarrow> removeEmpty c = Some c' \<Longrightarrow> wf_obj c'"
  using removeEmpty_subset[of c c'] removeEmpty_distinct[of c c']
  by (auto simp: wf_obj_def)

lemma removeEmpty_get:
  assumes "removeEmpty c = Some c'" and "distinct (map fst c)" and "obj_get c' k = Some w"
  shows "obj_get c k = Some w"
proof -
  from assms(3) have "(k, w) \<in> set c'"
    by (simp add: obj_get_def map_of_SomeD)
  with removeEmpty_subset[OF assms(1)] have "(k, w) \<in> set c" by auto
  with assms(2) show ?thesis by (simp add: obj_get_def)
qed

lemma removeEmpty_kept:
  assumes "removeEmpty c = Some c'" and "(k, w) \<in> set c" and "removeEmptyKey k w = Some False"
  shows "(k, w) \<in> set c'"
  using assms
proof (induction c arbitrary: c')
  case Nil
  then show ?case by simp
next
  case (Cons e c)
  obtain k' v' where e: "e = (k', v')" by (cases e)
  from Cons.prems(1) obtain gone rest where
    g: "removeEmptyKey k' v' = Some gone" and r: "removeEmpty c = Some rest"
    and c': "c' = (if gone then rest else (k', v') # rest)"
    by (auto simp: e split: Option.bind_splits)
  show ?case
  proof (cases "(k, w) = (k', v')")
    case True
    with g Cons.prems(3) have "\<not> gone" by simp
    with True show ?thesis by (simp add: c')
  next
    case False
    with Cons.prems(2) have "(k, w) \<in> set c" by (auto simp: e)
    from Cons.IH[OF r this Cons.prems(3)] show ?thesis by (simp add: c')
  qed
qed

lemma removeEmpty_entry:
  assumes "removeEmpty c = Some c'" and "(k, w) \<in> set c'"
  shows "removeEmptyKey k w = Some False"
  using assms
proof (induction c arbitrary: c')
  case Nil
  then show ?case by simp
next
  case (Cons e c)
  obtain k' v' where e: "e = (k', v')" by (cases e)
  from Cons.prems(1) obtain gone rest where
    g: "removeEmptyKey k' v' = Some gone" and r: "removeEmpty c = Some rest"
    and c': "c' = (if gone then rest else (k', v') # rest)"
    by (auto simp: e split: Option.bind_splits)
  from Cons.prems(2) consider "(k, w) \<in> set rest" | "\<not> gone" "(k, w) = (k', v')"
    by (auto simp: c' split: if_splits)
  then show ?case
  proof cases
    case 1
    from Cons.IH[OF r this] show ?thesis .
  next
    case 2
    with g show ?thesis by simp
  qed
qed

lemma removeEmpty_fixed:
  assumes "\<And>k w. (k, w) \<in> set c \<Longrightarrow> removeEmptyKey k w = Some False"
  shows "removeEmpty c = Some c"
  using assms by (induction c) auto

lemma removeEmpty_idem: "removeEmpty c = Some c' \<Longrightarrow> removeEmpty c' = Some c'"
  by (rule removeEmpty_fixed) (rule removeEmpty_entry)


lemma removeEmpty_lookup:
  assumes "removeEmpty c = Some c'" and "distinct (map fst c)"
  shows "obj_get c' k =
           (case obj_get c k of
              None \<Rightarrow> None
            | Some v \<Rightarrow> if removeEmptyKey k v = Some False then Some v else None)"
proof (cases "obj_get c k")
  case None
  with removeEmpty_get[OF assms] show ?thesis
    by (cases "obj_get c' k") auto
next
  case (Some v)
  then have in_c: "(k, v) \<in> set c" by (simp add: obj_get_def map_of_SomeD)
  have d': "distinct (map fst c')" by (rule removeEmpty_distinct[OF assms])
  show ?thesis
  proof (cases "removeEmptyKey k v = Some False")
    case True
    from removeEmpty_kept[OF assms(1) in_c True] d' have "obj_get c' k = Some v"
      by (simp add: obj_get_def)
    with Some True show ?thesis by simp
  next
    case False
    have "obj_get c' k = None"
    proof (cases "obj_get c' k")
      case (Some w)
      from removeEmpty_get[OF assms Some] \<open>obj_get c k = Some v\<close> have "w = v" by simp
      moreover from Some have "(k, w) \<in> set c'" by (simp add: obj_get_def map_of_SomeD)
      ultimately have "removeEmptyKey k v = Some False"
        using removeEmpty_entry[OF assms(1)] by blast
      with False show ?thesis by simp
    qed simp
    with Some False show ?thesis by simp
  qed
qed

subsection \<open>One run, step by step\<close>

text \<open>The intermediate objects of a run of \<open>cleanSteps\<close> that returns.\<close>

definition run ::
  "(json \<Rightarrow> json option) \<Rightarrow> (string \<Rightarrow> bool) \<Rightarrow> obj \<Rightarrow> obj \<Rightarrow> obj \<Rightarrow> obj \<Rightarrow> obj \<Rightarrow> obj \<Rightarrow> obj
     \<Rightarrow> obj \<Rightarrow> bool" where
  "run f re c1 c2 c4 c6 c7 c8 c9 c11 =
     (cleanProperties f c1 = Some c2
      \<and> cleanItems f (onlyArrayItems c2) = Some c4
      \<and> cleanCombinator f ''anyOf'' (cleanRequired c4) = Some c6
      \<and> cleanCombinator f ''oneOf'' c6 = Some c7
      \<and> cleanCombinator f ''allOf'' c7 = Some c8
      \<and> cleanNot f c8 = Some c9
      \<and> removeEmpty (fixPattern re c9) = Some c11)"

lemma cleanSteps_run:
  "cleanSteps f re c1 = Some c11 \<longleftrightarrow> (\<exists>c2 c4 c6 c7 c8 c9. run f re c1 c2 c4 c6 c7 c8 c9 c11)"
  by (auto simp: cleanSteps_def run_def split: Option.bind_splits)

lemma obj_get_onlyArrayItems_other:
  "k \<noteq> ''items'' \<Longrightarrow> obj_get (onlyArrayItems c) k = obj_get c k"
  by (auto simp: onlyArrayItems_def obj_get_delete split: option.splits)

lemma obj_get_fixPattern_other:
  "k \<noteq> ''pattern'' \<Longrightarrow> obj_get (fixPattern re c) k = obj_get c k"
  by (auto simp: fixPattern_def obj_get_delete obj_get_set Let_def split: option.splits json.splits)

lemma run_wf:
  assumes "run f re c1 c2 c4 c6 c7 c8 c9 c11" and "wf_obj c1"
  shows "wf_obj c2" "wf_obj c4" "wf_obj c6" "wf_obj c7" "wf_obj c8" "wf_obj c9"
    "wf_obj (fixPattern re c9)" "wf_obj c11"
proof -
  from assms(1) have e: "cleanProperties f c1 = Some c2"
    "cleanItems f (onlyArrayItems c2) = Some c4"
    "cleanCombinator f ''anyOf'' (cleanRequired c4) = Some c6"
    "cleanCombinator f ''oneOf'' c6 = Some c7"
    "cleanCombinator f ''allOf'' c7 = Some c8"
    "cleanNot f c8 = Some c9"
    "removeEmpty (fixPattern re c9) = Some c11"
    by (simp_all add: run_def)
  show w2: "wf_obj c2" by (rule wf_cleanProperties[OF assms(2) e(1)])
  show w4: "wf_obj c4" by (rule wf_cleanItems[OF wf_onlyArrayItems[OF w2] e(2)])
  show w6: "wf_obj c6" by (rule wf_cleanCombinator[OF wf_cleanRequired[OF w4] _ e(3)]) simp
  show w7: "wf_obj c7" by (rule wf_cleanCombinator[OF w6 _ e(4)]) simp
  show w8: "wf_obj c8" by (rule wf_cleanCombinator[OF w7 _ e(5)]) simp
  show w9: "wf_obj c9" by (rule wf_cleanNot[OF w8 e(6)])
  show w10: "wf_obj (fixPattern re c9)" by (rule wf_fixPattern[OF w9])
  show "wf_obj c11" by (rule wf_removeEmpty[OF w10 e(7)])
qed

lemma run_type:
  assumes "run f re c1 c2 c4 c6 c7 c8 c9 c11"
  shows "obj_get c2 ''type'' = obj_get c1 ''type''"
    and "obj_get c4 ''type'' = obj_get c1 ''type''"
    and "obj_get (fixPattern re c9) ''type'' = obj_get c1 ''type''"
proof -
  note f1 = cleanProperties_frame[rule_format] and f2 = cleanItems_frame[rule_format]
    and f3 = cleanCombinator_frame[rule_format] and f4 = cleanNot_frame[rule_format]
  from assms have e: "cleanProperties f c1 = Some c2"
    "cleanItems f (onlyArrayItems c2) = Some c4"
    "cleanCombinator f ''anyOf'' (cleanRequired c4) = Some c6"
    "cleanCombinator f ''oneOf'' c6 = Some c7"
    "cleanCombinator f ''allOf'' c7 = Some c8"
    "cleanNot f c8 = Some c9"
    by (simp_all add: run_def)
  show t2: "obj_get c2 ''type'' = obj_get c1 ''type''"
    by (simp add: f1[OF e(1)])
  show t4: "obj_get c4 ''type'' = obj_get c1 ''type''"
    by (simp add: f2[OF e(2)] obj_get_onlyArrayItems_other t2)
  have "obj_get c9 ''type'' = obj_get c4 ''type''"
    by (simp add: f4[OF e(6)] f3[OF e(5)] f3[OF e(4)] f3[OF e(3)] obj_get_cleanRequired)
  with t4 show "obj_get (fixPattern re c9) ''type'' = obj_get c1 ''type''"
    by (simp add: obj_get_fixPattern_other)
qed

lemma obj_get_normalizeType_type:
  "obj_get (normalizeType c) ''type'' =
     (case obj_get c ''type'' of
        None \<Rightarrow> Some (JString ''object'')
      | Some (JString t) \<Rightarrow> Some (JString (if t \<in> set validTypes then t else ''string''))
      | Some v \<Rightarrow> Some v)"
  by (auto simp: normalizeType_def obj_get_set split: option.splits json.splits)

lemma obj_get_removeNullable_other:
  "k \<noteq> ''nullable'' \<Longrightarrow> obj_get (removeNullable c) k = obj_get c k"
  by (simp add: removeNullable_def obj_get_delete)

lemma obj_get_normalizeType_other:
  "k \<noteq> ''type'' \<Longrightarrow> obj_get (normalizeType c) k = obj_get c k"
  by (auto simp: normalizeType_def obj_get_set split: option.splits json.splits)

lemma obj_get_prepared_object:
  assumes "distinct (map fst kvs)" and "k \<in> set allowedTopLevelProps"
  shows "obj_get (removeDisallowed (obj_delete (obj_spread [] kvs) ''$schema'')) k = obj_get kvs k"
  using assms
  by (auto simp: obj_get_removeDisallowed obj_get_delete obj_spread_distinct)

lemma prepared_type:
  assumes "distinct (map fst kvs)"
  shows "obj_get (prepared (JObject kvs)) ''type'' =
     (case obj_get kvs ''type'' of
        None \<Rightarrow> Some (JString ''object'')
      | Some (JString t) \<Rightarrow> Some (JString (if t \<in> set validTypes then t else ''string''))
      | Some v \<Rightarrow> Some v)"
  by (simp add: prepared_def obj_get_removeNullable_other obj_get_normalizeType_type
      obj_get_prepared_object[OF assms])



lemma cleanJsonSchema_objectE:
  assumes "cleanJsonSchema re x = Some out" and "truthy x" and "typeof_object x"
  obtains c where "out = JObject c" and "cleanSteps (cleanJsonSchema re) re (prepared x) = Some c"
proof -
  from assms(2,3) have "cleanJsonSchema re x
      = map_option JObject (cleanSteps (cleanJsonSchema re) re (prepared x))"
    by (subst cleanJsonSchema_steps) simp
  with assms(1) that show thesis by auto
qed

lemma cleanJsonSchema_objectI:
  assumes "cleanSteps (cleanJsonSchema re) re (prepared x) = Some c"
    and "truthy x" and "typeof_object x"
  shows "cleanJsonSchema re x = Some (JObject c)"
  by (subst cleanJsonSchema_steps) (simp add: assms)

lemma removeEmpty_no_throw:
  assumes "removeEmpty c = Some c'" and "(k, v) \<in> set c"
  shows "removeEmptyKey k v \<noteq> None"
  using assms
proof (induction c arbitrary: c')
  case Nil
  then show ?case by simp
next
  case (Cons e c)
  obtain k' v' where e: "e = (k', v')" by (cases e)
  from Cons.prems(1) obtain gone rest where
    g: "removeEmptyKey k' v' = Some gone" and r: "removeEmpty c = Some rest"
    by (auto simp: e split: Option.bind_splits)
  from Cons.prems(2) consider "(k, v) = (k', v')" | "(k, v) \<in> set c" by (auto simp: e)
  then show ?case
  proof cases
    case 1
    with g show ?thesis by simp
  next
    case 2
    from Cons.IH[OF r this] show ?thesis .
  qed
qed

section \<open>Idempotence of the normalizer\<close>

text \<open>No \<open>type\<close> property, at any depth, is an empty object or an empty array.\<close>

fun no_empty_type :: "json \<Rightarrow> bool" where
  "no_empty_type (JArray vs) = list_all no_empty_type vs"
| "no_empty_type (JObject kvs) =
     list_all (\<lambda>(k, v). (k \<noteq> ''type'' \<or> (v \<noteq> JObject [] \<and> v \<noteq> JArray [])) \<and> no_empty_type v) kvs"
| "no_empty_type v = True"

fun children :: "json \<Rightarrow> json list" where
  "children (JArray vs) = vs"
| "children (JObject kvs) = map snd kvs"
| "children v = []"

definition reach :: "json \<Rightarrow> json set" where
  "reach p = insert p (set (children p))"

definition idem_at :: "(json \<Rightarrow> json option) \<Rightarrow> json \<Rightarrow> bool" where
  "idem_at f v = (\<forall>v'. f v = Some v' \<longrightarrow> f v' = Some v')"

lemma entries_children: "(k, v) \<in> set (entries p) \<Longrightarrow> v \<in> set (children p)"
  by (cases p) (auto dest: set_zip_rightD intro: image_eqI[where x = "(k, v)"])

lemma size_children: "v \<in> set (children p) \<Longrightarrow> size v < size p"
  by (cases p) (auto dest: size_elem size_entry)

lemma no_empty_type_children: "no_empty_type p \<Longrightarrow> v \<in> set (children p) \<Longrightarrow> no_empty_type v"
  by (cases p) (auto simp: list_all_iff)

lemma reach_smaller:
  assumes "(k, p) \<in> set (entries x)" and "v \<in> reach p"
  shows "size v < size x \<and> (no_empty_type x \<longrightarrow> no_empty_type v)"
proof -
  from assms(1) have p: "p \<in> set (children x)" by (rule entries_children)
  then have "size p < size x" and "no_empty_type x \<longrightarrow> no_empty_type p"
    by (auto dest: size_children no_empty_type_children)
  moreover from assms(2) have "v = p \<or> v \<in> set (children p)" by (simp add: reach_def)
  ultimately show ?thesis
    by (auto dest: size_children no_empty_type_children)
qed

lemma prepared_entry:
  assumes "obj_get (prepared x) k = Some p" and "k \<noteq> ''type''"
  shows "(k, p) \<in> set (entries x)"
proof -
  from assms have "obj_get (removeDisallowed (obj_delete (obj_spread [] (entries x)) ''$schema'')) k = Some p"
    by (auto simp: prepared_def obj_get_normalizeType_other dest: obj_get_removeNullable)
  then have "obj_get (obj_spread [] (entries x)) k = Some p"
    by (auto simp: obj_get_removeDisallowed obj_get_delete split: if_splits)
  then have "obj_get [] k = Some p \<or> (k, p) \<in> set (entries x)"
    by (rule obj_get_spread_cases)
  then show ?thesis by (simp add: obj_get_def)
qed

lemma prepared_type_value:
  "\<exists>T. obj_get (prepared x) ''type'' = Some T
      \<and> (\<forall>t. T = JString t \<longrightarrow> t \<in> set validTypes)
      \<and> ((\<exists>t. T = JString t) \<or> (''type'', T) \<in> set (entries x))"
proof -
  let ?c0 = "removeDisallowed (obj_delete (obj_spread [] (entries x)) ''$schema'')"
  have p: "obj_get (prepared x) ''type'' = obj_get (normalizeType ?c0) ''type''"
    by (simp add: prepared_def obj_get_removeNullable_other)
  have v: "''string'' \<in> set validTypes" "''object'' \<in> set validTypes"
    by (simp_all add: validTypes_def)
  show ?thesis
  proof (cases "obj_get ?c0 ''type''")
    case None
    then show ?thesis using v by (simp add: p obj_get_normalizeType_type)
  next
    case (Some T0)
    then have "obj_get (obj_spread [] (entries x)) ''type'' = Some T0"
      by (auto simp: obj_get_removeDisallowed obj_get_delete split: if_splits)
    then have "obj_get [] ''type'' = Some T0 \<or> (''type'', T0) \<in> set (entries x)"
      by (rule obj_get_spread_cases)
    then have mem: "(''type'', T0) \<in> set (entries x)" by (simp add: obj_get_def)
    show ?thesis
    proof (cases T0)
      case (JString t)
      then show ?thesis using v Some by (simp add: p obj_get_normalizeType_type)
    qed (use Some mem in \<open>simp_all add: p obj_get_normalizeType_type\<close>)
  qed
qed

lemma prepared_reach:
  assumes "obj_get (prepared x) k = Some p" and "v \<in> reach p"
    and "truthy x" and "typeof_object x"
  shows "size v < size x \<and> (no_empty_type x \<longrightarrow> no_empty_type v)"
proof (cases "k = ''type'' \<and> (\<exists>t. p = JString t)")
  case True
  then obtain t where "p = JString t" by blast
  with assms(2) have "v = JString t" by (simp add: reach_def)
  moreover from assms(3,4) have "0 < size x" by (cases x) auto
  ultimately show ?thesis by simp
next
  case False
  have "(k, p) \<in> set (entries x)"
  proof (cases "k = ''type''")
    case True
    with prepared_type_value[of x] assms(1) False show ?thesis by auto
  next
    case False
    with assms(1) show ?thesis by (rule prepared_entry)
  qed
  then show ?thesis using assms(2) by (rule reach_smaller)
qed


subsection \<open>Each step leaves an object on which it does nothing\<close>

lemma those_map_fixed:
  "(\<And>x. x \<in> set xs \<Longrightarrow> g x = Some x) \<Longrightarrow> those (map g xs) = Some xs"
  by (induction xs) auto

lemma those_map_source:
  assumes "those (map g xs) = Some ys" and "y \<in> set ys"
  shows "\<exists>x \<in> set xs. g x = Some y"
proof -
  from assms(1) have "map g xs = map Some ys" by (rule those_map_Some)
  then have "set (map g xs) = set (map Some ys)" by simp
  moreover from assms(2) have "Some y \<in> set (map Some ys)" by simp
  ultimately have "Some y \<in> set (map g xs)" by simp
  then show ?thesis by auto
qed

lemma set_fromEntries: "(k, v) \<in> set (fromEntries es) \<Longrightarrow> (k, v) \<in> set es"
proof -
  assume m: "(k, v) \<in> set (fromEntries es)"
  have "distinct (map fst (fromEntries es))"
    unfolding fromEntries_def by (rule distinct_obj_spread) simp
  with m have "obj_get (obj_spread [] es) k = Some v"
    by (simp add: obj_get_def fromEntries_def)
  then have "obj_get [] k = Some v \<or> (k, v) \<in> set es" by (rule obj_get_spread_cases)
  then show ?thesis by (simp add: obj_get_def)
qed

definition propsStable :: "(json \<Rightarrow> json option) \<Rightarrow> obj \<Rightarrow> bool" where
  "propsStable f c =
     (\<forall>p. obj_get c ''properties'' = Some p \<longrightarrow> truthy p \<longrightarrow> typeof_object p \<longrightarrow>
        (\<exists>ps. p = JObject ps \<and> distinct (map fst ps) \<and> (\<forall>(k, v) \<in> set ps. f v = Some v)))"

lemma propsStable_fixed:
  assumes "propsStable f c"
  shows "cleanProperties f c = Some c"
proof (cases "obj_get c ''properties''")
  case None
  then show ?thesis by (simp add: cleanProperties_def)
next
  case (Some p)
  show ?thesis
  proof (cases "truthy p \<and> typeof_object p")
    case True
    with assms Some obtain ps where p: "p = JObject ps" and d: "distinct (map fst ps)"
      and fx: "\<forall>(k, v) \<in> set ps. f v = Some v"
      unfolding propsStable_def by blast
    have "those (map (\<lambda>(key, v). map_option (Pair key) (f v)) ps) = Some ps"
      by (rule those_map_fixed) (use fx in auto)
    moreover have "fromEntries ps = ps"
      by (simp add: fromEntries_def obj_spread_distinct[OF d])
    moreover have "obj_set c ''properties'' (JObject ps) = c"
      by (rule obj_set_same) (simp add: Some p)
    ultimately show ?thesis using True
      by (simp add: cleanProperties_def Some p)
  next
    case False
    then show ?thesis by (auto simp: cleanProperties_def Some)
  qed
qed

lemma cleanProperties_stable:
  assumes "cleanProperties f c = Some c'"
    and ih: "\<And>p v. obj_get c ''properties'' = Some p \<Longrightarrow> v \<in> reach p \<Longrightarrow> idem_at f v"
  shows "propsStable f c'"
proof (cases "obj_get c ''properties''")
  case None
  with assms(1) show ?thesis by (simp add: cleanProperties_def propsStable_def)
next
  case (Some p)
  show ?thesis
  proof (cases "truthy p \<and> typeof_object p")
    case True
    with assms(1) Some obtain es where
      es: "those (map (\<lambda>(key, v). map_option (Pair key) (f v)) (entries p)) = Some es"
      and c': "c' = obj_set c ''properties'' (JObject (fromEntries es))"
      by (auto simp: cleanProperties_def)
    have d: "distinct (map fst (fromEntries es))"
      unfolding fromEntries_def by (rule distinct_obj_spread) simp
    have "f v' = Some v'" if "(k, v') \<in> set (fromEntries es)" for k v'
    proof -
      from that have "(k, v') \<in> set es" by (rule set_fromEntries)
      from those_map_source[OF es this] obtain k0 v where
        kv: "(k0, v) \<in> set (entries p)" and fv: "f v = Some v'"
        by auto
      from kv have "v \<in> reach p" by (simp add: reach_def entries_children)
      from ih[OF Some this] fv show ?thesis by (simp add: idem_at_def)
    qed
    with d show ?thesis
      by (auto simp: propsStable_def c' obj_get_set)
  next
    case False
    with assms(1) Some have "c' = c" by (auto simp: cleanProperties_def)
    with Some False show ?thesis by (auto simp: propsStable_def)
  qed
qed

definition itemsArrayOnly :: "obj \<Rightarrow> bool" where
  "itemsArrayOnly c =
     (\<forall>i. obj_get c ''items'' = Some i \<longrightarrow> truthy i \<longrightarrow>
        obj_get c ''type'' = Some (JString ''array''))"

lemma itemsArrayOnly_fixed: "itemsArrayOnly c \<Longrightarrow> onlyArrayItems c = c"
  by (auto simp: itemsArrayOnly_def onlyArrayItems_def split: option.splits)

lemma onlyArrayItems_stable: "itemsArrayOnly (onlyArrayItems c)"
  by (auto simp: itemsArrayOnly_def onlyArrayItems_def obj_get_delete split: option.splits if_splits)

definition itemsStable :: "(json \<Rightarrow> json option) \<Rightarrow> obj \<Rightarrow> bool" where
  "itemsStable f c =
     (\<forall>i. obj_get c ''items'' = Some i \<longrightarrow> truthy i \<longrightarrow>
        (case i of JArray vs \<Rightarrow> \<forall>v \<in> set vs. f v = Some v | _ \<Rightarrow> f i = Some i))"

lemma itemsStable_fixed:
  assumes "itemsStable f c"
  shows "cleanItems f c = Some c"
proof (cases "obj_get c ''items''")
  case None
  then show ?thesis by (simp add: cleanItems_def)
next
  case (Some i)
  show ?thesis
  proof (cases "truthy i")
    case False
    then show ?thesis by (simp add: cleanItems_def Some)
  next
    case True
    show ?thesis
    proof (cases i)
      case (JArray vs)
      with assms Some True have "\<forall>v \<in> set vs. f v = Some v"
        by (auto simp: itemsStable_def)
      then have "those (map f vs) = Some vs" by (intro those_map_fixed) auto
      moreover have "obj_set c ''items'' (JArray vs) = c"
        by (rule obj_set_same) (simp add: Some JArray)
      ultimately show ?thesis by (simp add: cleanItems_def Some JArray)
    next
      case JNull
      with True show ?thesis by simp
    next
      case (JBool b)
      with assms Some True have "f i = Some i" by (auto simp: itemsStable_def)
      moreover have "obj_set c ''items'' i = c" by (rule obj_set_same) (simp add: Some)
      ultimately show ?thesis using True by (simp add: cleanItems_def Some JBool)
    next
      case (JNum n)
      with assms Some True have "f i = Some i" by (auto simp: itemsStable_def)
      moreover have "obj_set c ''items'' i = c" by (rule obj_set_same) (simp add: Some)
      ultimately show ?thesis using True by (simp add: cleanItems_def Some JNum)
    next
      case (JString t)
      with assms Some True have "f i = Some i" by (auto simp: itemsStable_def)
      moreover have "obj_set c ''items'' i = c" by (rule obj_set_same) (simp add: Some)
      ultimately show ?thesis using True by (simp add: cleanItems_def Some JString)
    next
      case (JObject kvs)
      with assms Some True have "f i = Some i" by (auto simp: itemsStable_def)
      moreover have "obj_set c ''items'' i = c" by (rule obj_set_same) (simp add: Some)
      ultimately show ?thesis using True by (simp add: cleanItems_def Some JObject)
    qed
  qed
qed

lemma cleanItems_stable:
  assumes "cleanItems f c = Some c'"
    and ih: "\<And>i v. obj_get c ''items'' = Some i \<Longrightarrow> v \<in> reach i \<Longrightarrow> idem_at f v"
    and noarr: "\<And>v vs. f v \<noteq> Some (JArray vs)"
  shows "itemsStable f c'"
proof (cases "obj_get c ''items''")
  case None
  with assms(1) show ?thesis by (simp add: cleanItems_def itemsStable_def)
next
  case (Some i)
  show ?thesis
  proof (cases "truthy i")
    case False
    with assms(1) Some show ?thesis by (auto simp: cleanItems_def itemsStable_def)
  next
    case True
    show ?thesis
    proof (cases "\<exists>vs. i = JArray vs")
      case True
      then obtain vs where i: "i = JArray vs" by blast
      with assms(1) Some obtain vs' where vs': "those (map f vs) = Some vs'"
        and c': "c' = obj_set c ''items'' (JArray vs')"
        by (auto simp: cleanItems_def)
      have "f v' = Some v'" if "v' \<in> set vs'" for v'
      proof -
        from those_map_source[OF vs' that] obtain v where v: "v \<in> set vs" and fv: "f v = Some v'"
          by auto
        from v have "v \<in> reach i" by (simp add: reach_def i)
        from ih[OF Some this] fv show ?thesis by (simp add: idem_at_def)
      qed
      then show ?thesis by (simp add: itemsStable_def c' obj_get_set)
    next
      case False
      with assms(1) Some \<open>truthy i\<close> obtain i' where i': "f i = Some i'"
        and c': "c' = obj_set c ''items'' i'"
        by (cases i) (auto simp: cleanItems_def)
      have "i \<in> reach i" by (simp add: reach_def)
      from ih[OF Some this] i' have fx: "f i' = Some i'" by (simp add: idem_at_def)
      from noarr[of i] i' have "\<And>vs. i' \<noteq> JArray vs" by auto
      with fx show ?thesis
        by (cases i') (auto simp: itemsStable_def c' obj_get_set)
    qed
  qed
qed

definition requiredStable :: "obj \<Rightarrow> bool" where
  "requiredStable c =
     (\<forall>r. obj_get c ''required'' = Some r \<longrightarrow> truthy r \<longrightarrow>
        (\<exists>items. r = JArray items \<and> items \<noteq> []
           \<and> filter (\<lambda>item. case item of JString s \<Rightarrow> s \<noteq> [] | _ \<Rightarrow> False) items = items))"

lemma requiredStable_fixed:
  assumes "requiredStable c"
  shows "cleanRequired c = c"
proof (cases "obj_get c ''required''")
  case None
  then show ?thesis by (simp add: cleanRequired_def)
next
  case (Some r)
  show ?thesis
  proof (cases "truthy r")
    case False
    then show ?thesis by (simp add: cleanRequired_def Some)
  next
    case True
    with assms Some obtain items where r: "r = JArray items" and ne: "items \<noteq> []"
      and fl: "filter (\<lambda>item. case item of JString s \<Rightarrow> s \<noteq> [] | _ \<Rightarrow> False) items = items"
      unfolding requiredStable_def by blast
    have "obj_set c ''required'' (JArray items) = c"
      by (rule obj_set_same) (simp add: Some r)
    then show ?thesis using ne fl
      by (simp add: cleanRequired_def Some r Let_def)
  qed
qed

lemma cleanRequired_stable: "requiredStable (cleanRequired c)"
proof (cases "obj_get c ''required''")
  case None
  then show ?thesis by (simp add: cleanRequired_def requiredStable_def)
next
  case (Some r)
  show ?thesis
  proof (cases "truthy r")
    case False
    then show ?thesis by (simp add: cleanRequired_def Some requiredStable_def)
  next
    case True
    show ?thesis
    proof (cases "\<exists>items. r = JArray items")
      case True
      then obtain items where r: "r = JArray items" by blast
      then show ?thesis
        by (simp add: cleanRequired_def Some requiredStable_def Let_def obj_get_set obj_get_delete)
    next
      case False
      with True have "cleanRequired c = obj_delete c ''required''"
        by (cases r) (simp_all add: cleanRequired_def Some)
      then show ?thesis by (simp add: requiredStable_def obj_get_delete)
    qed
  qed
qed

definition combStable :: "(json \<Rightarrow> json option) \<Rightarrow> string \<Rightarrow> obj \<Rightarrow> bool" where
  "combStable f key c =
     (\<forall>vs. obj_get c key = Some (JArray vs) \<longrightarrow> (\<forall>v \<in> set vs. f v = Some v))"

lemma combStable_fixed:
  assumes "combStable f key c"
  shows "cleanCombinator f key c = Some c"
proof (cases "\<exists>vs. obj_get c key = Some (JArray vs)")
  case True
  then obtain vs where vs: "obj_get c key = Some (JArray vs)" by blast
  with assms have "\<forall>v \<in> set vs. f v = Some v" by (simp add: combStable_def)
  then have "those (map f vs) = Some vs" by (intro those_map_fixed) auto
  moreover have "obj_set c key (JArray vs) = c" by (rule obj_set_same) (rule vs)
  ultimately show ?thesis by (simp add: cleanCombinator_def vs)
next
  case False
  then show ?thesis
    by (auto simp: cleanCombinator_def split: option.splits json.splits)
qed

lemma cleanCombinator_stable:
  assumes "cleanCombinator f key c = Some c'"
    and ih: "\<And>p v. obj_get c key = Some p \<Longrightarrow> v \<in> reach p \<Longrightarrow> idem_at f v"
  shows "combStable f key c'"
proof (cases "\<exists>vs. obj_get c key = Some (JArray vs)")
  case True
  then obtain vs where vs: "obj_get c key = Some (JArray vs)" by blast
  with assms(1) obtain vs' where vs': "those (map f vs) = Some vs'"
    and c': "c' = obj_set c key (JArray vs')"
    by (auto simp: cleanCombinator_def)
  have "f v' = Some v'" if "v' \<in> set vs'" for v'
  proof -
    from those_map_source[OF vs' that] obtain v where v: "v \<in> set vs" and fv: "f v = Some v'"
      by auto
    from v have "v \<in> reach (JArray vs)" by (simp add: reach_def)
    from ih[OF vs this] fv show ?thesis by (simp add: idem_at_def)
  qed
  then show ?thesis by (simp add: combStable_def c' obj_get_set)
next
  case False
  with assms(1) have "c' = c"
    by (auto simp: cleanCombinator_def split: option.splits json.splits)
  with False show ?thesis by (simp add: combStable_def)
qed

definition notStable :: "(json \<Rightarrow> json option) \<Rightarrow> obj \<Rightarrow> bool" where
  "notStable f c = (\<forall>n. obj_get c ''not'' = Some n \<longrightarrow> truthy n \<longrightarrow> f n = Some n)"

lemma notStable_fixed:
  assumes "notStable f c"
  shows "cleanNot f c = Some c"
proof (cases "obj_get c ''not''")
  case None
  then show ?thesis by (simp add: cleanNot_def)
next
  case (Some n)
  show ?thesis
  proof (cases "truthy n")
    case True
    with assms Some have "f n = Some n" by (simp add: notStable_def)
    moreover have "obj_set c ''not'' n = c" by (rule obj_set_same) (rule Some)
    ultimately show ?thesis using True by (simp add: cleanNot_def Some)
  next
    case False
    then show ?thesis by (simp add: cleanNot_def Some)
  qed
qed

lemma cleanNot_stable:
  assumes "cleanNot f c = Some c'"
    and ih: "\<And>p v. obj_get c ''not'' = Some p \<Longrightarrow> v \<in> reach p \<Longrightarrow> idem_at f v"
  shows "notStable f c'"
proof (cases "obj_get c ''not''")
  case None
  with assms(1) show ?thesis by (simp add: cleanNot_def notStable_def)
next
  case (Some n)
  show ?thesis
  proof (cases "truthy n")
    case True
    with assms(1) Some obtain n' where n': "f n = Some n'" and c': "c' = obj_set c ''not'' n'"
      by (auto simp: cleanNot_def)
    have "n \<in> reach n" by (simp add: reach_def)
    from ih[OF Some this] n' have "f n' = Some n'" by (simp add: idem_at_def)
    then show ?thesis by (simp add: notStable_def c' obj_get_set)
  next
    case False
    with assms(1) Some show ?thesis by (auto simp: cleanNot_def notStable_def)
  qed
qed

definition patternStable :: "(string \<Rightarrow> bool) \<Rightarrow> obj \<Rightarrow> bool" where
  "patternStable re c = (\<forall>p. obj_get c ''pattern'' = Some (JString p) \<longrightarrow> p \<noteq> [] \<longrightarrow> re p)"

lemma patternStable_fixed: "patternStable re c \<Longrightarrow> fixPattern re c = c"
  by (auto simp: patternStable_def fixPattern_def split: option.splits json.splits)

lemma fixPattern_stable: "patternStable re (fixPattern re c)"
  by (auto simp: patternStable_def fixPattern_def obj_get_set obj_get_delete Let_def
      split: option.splits json.splits if_splits)


subsection \<open>A second run changes nothing\<close>

lemma cleanItems_truthy_source:
  assumes "cleanItems f c = Some c'" and "obj_get c' ''items'' = Some i" and "truthy i"
    and tp: "\<And>v v'. f v = Some v' \<Longrightarrow> truthy v' = truthy v"
  shows "\<exists>i0. obj_get c ''items'' = Some i0 \<and> truthy i0"
proof (cases "obj_get c ''items''")
  case None
  with assms(1,2) show ?thesis by (simp add: cleanItems_def)
next
  case (Some i0)
  show ?thesis
  proof (cases "truthy i0")
    case True
    with Some show ?thesis by simp
  next
    case False
    with assms(1) Some have "c' = c" by (simp add: cleanItems_def)
    with assms(2,3) Some False show ?thesis by simp
  qed
qed

lemma prepared_fixed:
  assumes "wf_obj c" and "obj_get c ''type'' = Some T"
    and "\<And>t. T = JString t \<Longrightarrow> t \<in> set validTypes"
  shows "prepared (JObject c) = c"
proof -
  from assms(1) have d: "distinct (map fst c)" and k: "fst ` set c \<subseteq> set allowedTopLevelProps"
    by (simp_all add: wf_obj_def)
  have absent: "obj_get c k' = None" if "k' \<notin> set allowedTopLevelProps" for k'
    using that k by (auto simp: obj_get_def map_of_eq_None_iff)
  have s1: "obj_spread [] (entries (JObject c)) = c"
    by (simp add: obj_spread_distinct[OF d])
  have s2: "obj_delete c ''$schema'' = c"
    by (rule obj_delete_absent) (simp add: absent)
  have s3: "removeDisallowed c = c"
    using k by (auto simp: removeDisallowed_def filter_id_conv)
  have s4: "normalizeType c = c"
  proof (cases T)
    case (JString t)
    with assms(2,3) show ?thesis by (simp add: normalizeType_def)
  qed (use assms(2) in \<open>simp_all add: normalizeType_def\<close>)
  have s5: "removeNullable c = c"
    by (simp add: removeNullable_def absent)
  show ?thesis
    by (simp only: prepared_def s1 s2 s3 s4 s5)
qed

lemma run_fixed:
  assumes r: "run f re c1 c2 c4 c6 c7 c8 c9 c11" and wf1: "wf_obj c1"
    and ih: "\<And>k p v. obj_get c1 k = Some p \<Longrightarrow> v \<in> reach p \<Longrightarrow> idem_at f v"
    and noarr: "\<And>v vs. f v \<noteq> Some (JArray vs)"
    and tp: "\<And>v v'. f v = Some v' \<Longrightarrow> truthy v' = truthy v"
  shows "cleanSteps f re c11 = Some c11"
proof -
  from r have e1: "cleanProperties f c1 = Some c2"
    and e2: "cleanItems f (onlyArrayItems c2) = Some c4"
    and e3: "cleanCombinator f ''anyOf'' (cleanRequired c4) = Some c6"
    and e4: "cleanCombinator f ''oneOf'' c6 = Some c7"
    and e5: "cleanCombinator f ''allOf'' c7 = Some c8"
    and e6: "cleanNot f c8 = Some c9"
    and e7: "removeEmpty (fixPattern re c9) = Some c11"
    by (simp_all add: run_def)
  note fr = cleanProperties_frame[OF e1, rule_format] cleanItems_frame[OF e2, rule_format]
    cleanCombinator_frame[OF e3, rule_format] cleanCombinator_frame[OF e4, rule_format]
    cleanCombinator_frame[OF e5, rule_format] cleanNot_frame[OF e6, rule_format]
    obj_get_onlyArrayItems_other obj_get_cleanRequired obj_get_fixPattern_other
  have d10: "distinct (map fst (fixPattern re c9))"
    using run_wf(7)[OF r wf1] by (simp add: wf_obj_def)
  note origin = removeEmpty_get[OF e7 d10]

  have "propsStable f c2"
    by (rule cleanProperties_stable[OF e1]) (rule ih)
  moreover have "obj_get c2 ''properties'' = Some w" if "obj_get c11 ''properties'' = Some w" for w
    using origin[OF that] by (simp add: fr)
  ultimately have sP: "propsStable f c11"
    unfolding propsStable_def by blast

  have "itemsStable f c4"
  proof (rule cleanItems_stable[OF e2 _ noarr])
    fix i v assume "obj_get (onlyArrayItems c2) ''items'' = Some i" and v: "v \<in> reach i"
    then have "obj_get c1 ''items'' = Some i"
      by (auto dest!: obj_get_onlyArrayItems simp: fr)
    from ih[OF this v] show "idem_at f v" .
  qed
  moreover have items_back: "obj_get c4 ''items'' = Some w" if "obj_get c11 ''items'' = Some w" for w
    using origin[OF that] by (simp add: fr)
  ultimately have sI: "itemsStable f c11"
    unfolding itemsStable_def by blast

  have sD: "itemsArrayOnly c11"
    unfolding itemsArrayOnly_def
  proof (intro allI impI)
    fix i assume i: "obj_get c11 ''items'' = Some i" and t: "truthy i"
    from cleanItems_truthy_source[OF e2 items_back[OF i] t tp]
    obtain i0 where "obj_get (onlyArrayItems c2) ''items'' = Some i0" and "truthy i0"
      by blast
    with onlyArrayItems_stable[of c2]
    have "obj_get (onlyArrayItems c2) ''type'' = Some (JString ''array'')"
      by (simp add: itemsArrayOnly_def)
    then have "obj_get (fixPattern re c9) ''type'' = Some (JString ''array'')"
      by (simp add: fr)
    then show "obj_get c11 ''type'' = Some (JString ''array'')"
      by (simp add: removeEmpty_lookup[OF e7 d10] removeEmptyKey_def)
  qed

  have "requiredStable (cleanRequired c4)" by (rule cleanRequired_stable)
  moreover have "obj_get (cleanRequired c4) ''required'' = Some w"
    if "obj_get c11 ''required'' = Some w" for w
    using origin[OF that] by (simp add: fr)
  ultimately have sR: "requiredStable c11"
    unfolding requiredStable_def by blast

  have "combStable f ''anyOf'' c6"
  proof (rule cleanCombinator_stable[OF e3])
    fix p v assume "obj_get (cleanRequired c4) ''anyOf'' = Some p" and v: "v \<in> reach p"
    then have "obj_get c1 ''anyOf'' = Some p" by (simp add: fr)
    from ih[OF this v] show "idem_at f v" .
  qed
  moreover have "obj_get c6 ''anyOf'' = Some w" if "obj_get c11 ''anyOf'' = Some w" for w
    using origin[OF that] by (simp add: fr)
  ultimately have sA: "combStable f ''anyOf'' c11"
    unfolding combStable_def by blast

  have "combStable f ''oneOf'' c7"
  proof (rule cleanCombinator_stable[OF e4])
    fix p v assume "obj_get c6 ''oneOf'' = Some p" and v: "v \<in> reach p"
    then have "obj_get c1 ''oneOf'' = Some p" by (simp add: fr)
    from ih[OF this v] show "idem_at f v" .
  qed
  moreover have "obj_get c7 ''oneOf'' = Some w" if "obj_get c11 ''oneOf'' = Some w" for w
    using origin[OF that] by (simp add: fr)
  ultimately have sO: "combStable f ''oneOf'' c11"
    unfolding combStable_def by blast

  have "combStable f ''allOf'' c8"
  proof (rule cleanCombinator_stable[OF e5])
    fix p v assume "obj_get c7 ''allOf'' = Some p" and v: "v \<in> reach p"
    then have "obj_get c1 ''allOf'' = Some p" by (simp add: fr)
    from ih[OF this v] show "idem_at f v" .
  qed
  moreover have "obj_get c8 ''allOf'' = Some w" if "obj_get c11 ''allOf'' = Some w" for w
    using origin[OF that] by (simp add: fr)
  ultimately have sL: "combStable f ''allOf'' c11"
    unfolding combStable_def by blast

  have "notStable f c9"
  proof (rule cleanNot_stable[OF e6])
    fix p v assume "obj_get c8 ''not'' = Some p" and v: "v \<in> reach p"
    then have "obj_get c1 ''not'' = Some p" by (simp add: fr)
    from ih[OF this v] show "idem_at f v" .
  qed
  moreover have "obj_get c9 ''not'' = Some w" if "obj_get c11 ''not'' = Some w" for w
    using origin[OF that] by (simp add: fr)
  ultimately have sN: "notStable f c11"
    unfolding notStable_def by blast

  have "patternStable re (fixPattern re c9)" by (rule fixPattern_stable)
  with origin have sT: "patternStable re c11"
    unfolding patternStable_def by blast

  show ?thesis
    by (simp add: cleanSteps_def propsStable_fixed[OF sP] itemsArrayOnly_fixed[OF sD]
        itemsStable_fixed[OF sI] requiredStable_fixed[OF sR] combStable_fixed[OF sA]
        combStable_fixed[OF sO] combStable_fixed[OF sL] notStable_fixed[OF sN]
        patternStable_fixed[OF sT] removeEmpty_idem[OF e7])
qed


lemma digit_not_t: "d < 10 \<Longrightarrow> char_of (48 + d) \<noteq> CHR ''t''" for d :: nat
proof
  assume d: "d < 10" and eq: "char_of (48 + d) = CHR ''t''"
  from eq have "of_char (char_of (48 + d) :: char) = (of_char (CHR ''t'') :: nat)" by simp
  with d show False by simp
qed

lemma string_of_nat_no_t: "CHR ''t'' \<notin> set (string_of_nat n)"
proof (induction n rule: string_of_nat.induct)
  case (1 n)
  show ?case
  proof (cases "n < 10")
    case True
    then show ?thesis
      by (subst string_of_nat.simps) (simp add: digit_not_t[THEN not_sym])
  next
    case False
    have "n mod 10 < 10" by simp
    from digit_not_t[OF this, THEN not_sym] "1.IH"[OF False] False show ?thesis
      by (subst string_of_nat.simps) simp
  qed
qed

lemma type_entry_not_empty:
  assumes "no_empty_type x" and "(''type'', T) \<in> set (entries x)"
  shows "T \<noteq> JObject [] \<and> T \<noteq> JArray []"
proof (cases x)
  case (JObject kvs)
  with assms show ?thesis by (auto simp: list_all_iff)
next
  case (JArray vs)
  with assms(2) have "''type'' \<in> set (map string_of_nat [0..<length vs])"
    by (auto dest: set_zip_leftD)
  then obtain n where "''type'' = string_of_nat n" by auto
  with string_of_nat_no_t[of n] show ?thesis by (metis list.set_intros(1))
qed (use assms(2) in simp_all)

lemma cleanJsonSchema_never_array: "cleanJsonSchema re v \<noteq> Some (JArray vs)"
proof
  assume a: "cleanJsonSchema re v = Some (JArray vs)"
  from cleanJsonSchema_shape[OF a] have p: "\<not> truthy v \<or> \<not> typeof_object v" by simp
  then have "cleanJsonSchema re v = Some v" by (rule cleanJsonSchema_primitive)
  with a have "v = JArray vs" by simp
  with p show False by simp
qed

lemma cleanJsonSchema_truthy: "cleanJsonSchema re v = Some v' \<Longrightarrow> truthy v' = truthy v"
  using cleanJsonSchema_shape by blast

lemma cleanJsonSchema_idem_at:
  "no_empty_type x \<Longrightarrow> idem_at (cleanJsonSchema re) x"
proof (induction x rule: measure_induct_rule[of size])
  case (less x)
  let ?f = "cleanJsonSchema re"
  show ?case
    unfolding idem_at_def
  proof (intro allI impI)
    fix y assume fx: "?f x = Some y"
    show "?f y = Some y"
    proof (cases "\<not> truthy x \<or> \<not> typeof_object x")
      case True
      then have "?f x = Some x" by (rule cleanJsonSchema_primitive)
      with fx show ?thesis by simp
    next
      case False
      then have tx: "truthy x" and ox: "typeof_object x" by simp_all
      from cleanJsonSchema_objectE[OF fx tx ox] obtain c11 where y: "y = JObject c11"
        and steps: "cleanSteps ?f re (prepared x) = Some c11"
        by blast
      from steps[unfolded cleanSteps_run] obtain c2 c4 c6 c7 c8 c9 where
        r: "run ?f re (prepared x) c2 c4 c6 c7 c8 c9 c11"
        by blast
      have ih: "idem_at ?f v" if "obj_get (prepared x) k = Some p" and "v \<in> reach p" for k p v
      proof -
        from prepared_reach[OF that tx ox] less.prems
        have "size v < size x" and "no_empty_type v" by simp_all
        then show ?thesis by (rule less.IH)
      qed
      have again: "cleanSteps ?f re c11 = Some c11"
        by (rule run_fixed[OF r wf_prepared ih cleanJsonSchema_never_array
              cleanJsonSchema_truthy])
      have w11: "wf_obj c11" by (rule run_wf(8)[OF r wf_prepared])
      from r have e7: "removeEmpty (fixPattern re c9) = Some c11" by (simp add: run_def)
      have d10: "distinct (map fst (fixPattern re c9))"
        using run_wf(7)[OF r wf_prepared] by (simp add: wf_obj_def)
      from prepared_type_value[of x] obtain T where
        T: "obj_get (prepared x) ''type'' = Some T"
        and valid: "\<forall>t. T = JString t \<longrightarrow> t \<in> set validTypes"
        and src: "(\<exists>t. T = JString t) \<or> (''type'', T) \<in> set (entries x)"
        by blast
      have T10: "obj_get (fixPattern re c9) ''type'' = Some T"
        by (simp add: run_type(3)[OF r] T)
      then have "(''type'', T) \<in> set (fixPattern re c9)"
        by (simp add: obj_get_def map_of_SomeD)
      from removeEmpty_no_throw[OF e7 this] have nn: "T \<noteq> JNull"
        by (auto simp: removeEmptyKey_def)
      have kept: "removeEmptyKey ''type'' T = Some False"
      proof (cases "\<exists>t. T = JString t")
        case True
        then obtain t where t: "T = JString t" by blast
        with valid have "t \<in> set validTypes" by simp
        then have "t \<noteq> []" by (auto simp: validTypes_def)
        then show ?thesis by (simp add: removeEmptyKey_def t)
      next
        case False
        with src have "(''type'', T) \<in> set (entries x)" by simp
        from type_entry_not_empty[OF less.prems this] nn False show ?thesis
          by (simp add: removeEmptyKey_def)
      qed
      have T11: "obj_get c11 ''type'' = Some T"
        by (simp add: removeEmpty_lookup[OF e7 d10] T10 kept)
      have "prepared (JObject c11) = c11"
        by (rule prepared_fixed[OF w11 T11]) (use valid in simp)
      with again have "cleanSteps ?f re (prepared (JObject c11)) = Some c11" by simp
      then have "?f (JObject c11) = Some (JObject c11)"
        by (rule cleanJsonSchema_objectI) simp_all
      then show ?thesis by (simp add: y)
    qed
  qed
qed

text \<open>
  C5, as the code has it. For every schema in which no \<open>type\<close> property, at any depth,
  is an empty object or an empty array, normalizing twice is normalizing once: when
  the first run returns, the second returns the same value, and when the first run
  throws there is no second.
\<close>

theorem normalizer_idempotent_without_empty_type:
  assumes "no_empty_type x"
  shows "cleanJsonSchema re x \<bind> cleanJsonSchema re = cleanJsonSchema re x"
proof (cases "cleanJsonSchema re x")
  case None
  then show ?thesis by simp
next
  case (Some y)
  with cleanJsonSchema_idem_at[OF assms, of re] have "cleanJsonSchema re y = Some y"
    by (simp add: idem_at_def)
  with Some show ?thesis by simp
qed

lemma clean_nestedSchema:
  "cleanJsonSchema exampleRegExp nestedSchema = Some nestedSchemaCleaned"
  by code_simp

theorem normalizer_idempotent_without_empty_type_witness:
  "no_empty_type nestedSchema
   \<and> cleanJsonSchema exampleRegExp nestedSchema = Some nestedSchemaCleaned
   \<and> cleanJsonSchema exampleRegExp nestedSchemaCleaned = Some nestedSchemaCleaned"
proof -
  have h: "no_empty_type nestedSchema"
    by (simp add: nestedSchema_def unknownTypeSchema_def)
  from normalizer_idempotent_without_empty_type[OF h, of exampleRegExp]
  have "cleanJsonSchema exampleRegExp nestedSchemaCleaned = Some nestedSchemaCleaned"
    by (simp add: clean_nestedSchema)
  with h clean_nestedSchema show ?thesis by simp
qed

text \<open>
  C5 as the spec states it fails: the schema \<open>{type: {}}\<close> is normalized to \<open>{}\<close>, whose
  \<open>type\<close> the final pass has removed, and \<open>{}\<close> is normalized to \<open>{type: "object"}\<close>.
\<close>

theorem empty_type_counterexample:
  "cleanJsonSchema exampleRegExp emptyTypeSchema = Some (JObject [])
   \<and> cleanJsonSchema exampleRegExp (JObject []) = Some (JObject [(''type'', JString ''object'')])
   \<and> cleanJsonSchema exampleRegExp emptyTypeSchema \<bind> cleanJsonSchema exampleRegExp
       \<noteq> cleanJsonSchema exampleRegExp emptyTypeSchema"
proof -
  have a: "cleanJsonSchema exampleRegExp emptyTypeSchema = Some (JObject [])"
    by code_simp
  have b: "cleanJsonSchema exampleRegExp (JObject [])
      = Some (JObject [(''type'', JString ''object'')])"
    by code_simp
  from a b show ?thesis by simp
qed


section \<open>When the normalizer returns\<close>

text \<open>The schema holds no \<open>null\<close>, at any depth.\<close>

fun null_free :: "json \<Rightarrow> bool" where
  "null_free JNull = False"
| "null_free (JArray vs) = list_all null_free vs"
| "null_free (JObject kvs) = list_all (\<lambda>(k, v). null_free v) kvs"
| "null_free v = True"

definition nonnull_values :: "obj \<Rightarrow> bool" where
  "nonnull_values c = (\<forall>(k, v) \<in> set c. v \<noteq> JNull)"

lemma null_free_children: "null_free p \<Longrightarrow> v \<in> set (children p) \<Longrightarrow> null_free v"
  by (cases p) (auto simp: list_all_iff)

lemma null_free_reach: "null_free p \<Longrightarrow> v \<in> reach p \<Longrightarrow> null_free v"
  by (auto simp: reach_def dest: null_free_children)

lemma set_obj_set: "set (obj_set c k v) \<subseteq> insert (k, v) (set c)"
  by (induction c) (auto simp: obj_set_def)

lemma set_obj_delete: "set (obj_delete c k) \<subseteq> set c"
  by (auto simp: obj_delete_def AList.delete_eq)

lemma nonnull_obj_set: "nonnull_values c \<Longrightarrow> v \<noteq> JNull \<Longrightarrow> nonnull_values (obj_set c k v)"
  using set_obj_set[of c k v] by (auto simp: nonnull_values_def)

lemma nonnull_obj_delete: "nonnull_values c \<Longrightarrow> nonnull_values (obj_delete c k)"
  using set_obj_delete[of c k] by (auto simp: nonnull_values_def)

lemma nonnull_obj_spread:
  "nonnull_values t \<Longrightarrow> nonnull_values s \<Longrightarrow> nonnull_values (obj_spread t s)"
proof (induction s arbitrary: t)
  case Nil
  then show ?case by (simp add: obj_spread_def)
next
  case (Cons e s)
  obtain k v where e: "e = (k, v)" by (cases e)
  from Cons.prems(2) have "v \<noteq> JNull" and "nonnull_values s"
    by (auto simp: nonnull_values_def e)
  with Cons.IH[of "obj_set t k v"] Cons.prems(1) show ?case
    by (simp add: obj_spread_def e nonnull_obj_set)
qed

lemma nonnull_entries: "null_free x \<Longrightarrow> nonnull_values (entries x)"
proof (cases x)
  case (JObject kvs)
  assume "null_free x"
  with JObject show ?thesis
    by (auto simp: nonnull_values_def list_all_iff)
next
  case (JArray vs)
  assume "null_free x"
  with JArray show ?thesis
    by (auto simp: nonnull_values_def list_all_iff dest!: set_zip_rightD)
qed (simp_all add: nonnull_values_def)

lemma nonnull_prepared: "null_free x \<Longrightarrow> nonnull_values (prepared x)"
proof -
  assume "null_free x"
  then have "nonnull_values (obj_spread [] (entries x))"
    by (intro nonnull_obj_spread nonnull_entries) (simp_all add: nonnull_values_def)
  then have "nonnull_values (removeDisallowed (obj_delete (obj_spread [] (entries x)) ''$schema''))"
    using set_obj_delete[of "obj_spread [] (entries x)" "''$schema''"]
    by (auto simp: nonnull_values_def removeDisallowed_def)
  then have "nonnull_values (normalizeType
      (removeDisallowed (obj_delete (obj_spread [] (entries x)) ''$schema'')))"
    by (auto simp: normalizeType_def nonnull_obj_set split: option.splits json.splits)
  then show ?thesis
    by (simp add: prepared_def removeNullable_def nonnull_obj_delete)
qed

lemma those_map_total:
  "(\<And>x. x \<in> set xs \<Longrightarrow> g x \<noteq> None) \<Longrightarrow> those (map g xs) \<noteq> None"
proof (induction xs)
  case Nil
  then show ?case by simp
next
  case (Cons x xs)
  then obtain y ys where "g x = Some y" and "those (map g xs) = Some ys"
    by (cases "g x"; cases "those (map g xs)") auto
  then show ?case by simp
qed

lemma cleanProperties_total:
  assumes ok: "\<And>p v. obj_get c ''properties'' = Some p \<Longrightarrow> v \<in> reach p \<Longrightarrow> f v \<noteq> None"
    and "nonnull_values c"
  shows "\<exists>c'. cleanProperties f c = Some c' \<and> nonnull_values c'"
proof (cases "obj_get c ''properties''")
  case None
  with assms(2) show ?thesis by (simp add: cleanProperties_def)
next
  case (Some p)
  show ?thesis
  proof (cases "truthy p \<and> typeof_object p")
    case True
    have "those (map (\<lambda>(key, v). map_option (Pair key) (f v)) (entries p)) \<noteq> None"
    proof (rule those_map_total)
      fix e assume mem: "e \<in> set (entries p)"
      obtain k v where e: "e = (k, v)" by (cases e)
      with mem have m: "(k, v) \<in> set (entries p)" by simp
      from m have "v \<in> reach p" by (simp add: reach_def entries_children)
      from ok[OF Some this] show "(case e of (key, v) \<Rightarrow> map_option (Pair key) (f v)) \<noteq> None"
        by (simp add: e)
    qed
    then obtain es where "those (map (\<lambda>(key, v). map_option (Pair key) (f v)) (entries p)) = Some es"
      by auto
    with True assms(2) show ?thesis
      by (simp add: cleanProperties_def Some nonnull_obj_set)
  next
    case False
    with assms(2) show ?thesis by (auto simp: cleanProperties_def Some)
  qed
qed

lemma cleanItems_total:
  assumes ok: "\<And>i v. obj_get c ''items'' = Some i \<Longrightarrow> v \<in> reach i \<Longrightarrow> f v \<noteq> None"
    and nn: "\<And>v v'. f v = Some v' \<Longrightarrow> v \<noteq> JNull \<Longrightarrow> v' \<noteq> JNull"
    and "nonnull_values c"
  shows "\<exists>c'. cleanItems f c = Some c' \<and> nonnull_values c'"
proof (cases "obj_get c ''items''")
  case None
  with assms(3) show ?thesis by (simp add: cleanItems_def)
next
  case (Some i)
  show ?thesis
  proof (cases "truthy i")
    case False
    with assms(3) show ?thesis by (simp add: cleanItems_def Some)
  next
    case True
    show ?thesis
    proof (cases "\<exists>vs. i = JArray vs")
      case True
      then obtain vs where i: "i = JArray vs" by blast
      have "those (map f vs) \<noteq> None"
        by (rule those_map_total) (rule ok[OF Some], simp add: reach_def i)
      then obtain vs' where "those (map f vs) = Some vs'" by auto
      with assms(3) show ?thesis
        by (simp add: cleanItems_def Some i nonnull_obj_set)
    next
      case False
      from ok[OF Some, of i] obtain i' where i': "f i = Some i'"
        by (auto simp: reach_def)
      from \<open>truthy i\<close> have "i \<noteq> JNull" by auto
      from nn[OF i' this] have "i' \<noteq> JNull" .
      with False \<open>truthy i\<close> i' assms(3) show ?thesis
        by (cases i) (auto simp: cleanItems_def Some nonnull_obj_set)
    qed
  qed
qed

lemma cleanCombinator_total:
  assumes ok: "\<And>p v. obj_get c key = Some p \<Longrightarrow> v \<in> reach p \<Longrightarrow> f v \<noteq> None"
    and "nonnull_values c"
  shows "\<exists>c'. cleanCombinator f key c = Some c' \<and> nonnull_values c'"
proof (cases "\<exists>vs. obj_get c key = Some (JArray vs)")
  case True
  then obtain vs where vs: "obj_get c key = Some (JArray vs)" by blast
  have "those (map f vs) \<noteq> None"
    by (rule those_map_total) (rule ok[OF vs], simp add: reach_def)
  then obtain vs' where "those (map f vs) = Some vs'" by auto
  with assms(2) show ?thesis
    by (simp add: cleanCombinator_def vs nonnull_obj_set)
next
  case False
  with assms(2) show ?thesis
    by (auto simp: cleanCombinator_def split: option.splits json.splits)
qed

lemma cleanNot_total:
  assumes ok: "\<And>p v. obj_get c ''not'' = Some p \<Longrightarrow> v \<in> reach p \<Longrightarrow> f v \<noteq> None"
    and nn: "\<And>v v'. f v = Some v' \<Longrightarrow> v \<noteq> JNull \<Longrightarrow> v' \<noteq> JNull"
    and "nonnull_values c"
  shows "\<exists>c'. cleanNot f c = Some c' \<and> nonnull_values c'"
proof (cases "obj_get c ''not''")
  case None
  with assms(3) show ?thesis by (simp add: cleanNot_def)
next
  case (Some n)
  show ?thesis
  proof (cases "truthy n")
    case True
    from ok[OF Some, of n] obtain n' where n': "f n = Some n'"
      by (auto simp: reach_def)
    from True have "n \<noteq> JNull" by auto
    from nn[OF n' this] True n' assms(3) show ?thesis
      by (simp add: cleanNot_def Some nonnull_obj_set)
  next
    case False
    with assms(3) show ?thesis by (simp add: cleanNot_def Some)
  qed
qed

lemma nonnull_onlyArrayItems: "nonnull_values c \<Longrightarrow> nonnull_values (onlyArrayItems c)"
  by (auto simp: onlyArrayItems_def nonnull_obj_delete split: option.splits)

lemma nonnull_cleanRequired: "nonnull_values c \<Longrightarrow> nonnull_values (cleanRequired c)"
  by (auto simp: cleanRequired_def nonnull_obj_delete nonnull_obj_set Let_def
      split: option.splits json.splits)

lemma nonnull_fixPattern: "nonnull_values c \<Longrightarrow> nonnull_values (fixPattern re c)"
  by (auto simp: fixPattern_def nonnull_obj_delete nonnull_obj_set Let_def
      split: option.splits json.splits)

lemma removeEmpty_total: "nonnull_values c \<Longrightarrow> removeEmpty c \<noteq> None"
proof (induction c)
  case Nil
  then show ?case by simp
next
  case (Cons e c)
  obtain k v where e: "e = (k, v)" by (cases e)
  from Cons.prems have "v \<noteq> JNull" and "nonnull_values c"
    by (auto simp: nonnull_values_def e)
  with Cons.IH obtain rest where "removeEmpty c = Some rest" by auto
  moreover from \<open>v \<noteq> JNull\<close> have "removeEmptyKey k v \<noteq> None"
    by (cases "k \<noteq> ''properties'' \<and> k \<noteq> ''default''") (simp_all add: removeEmptyKey_def Let_def)
  then obtain g where "removeEmptyKey k v = Some g" by auto
  ultimately show ?case by (simp add: e)
qed

lemma cleanSteps_total:
  assumes ok: "\<And>k p v. obj_get c1 k = Some p \<Longrightarrow> v \<in> reach p \<Longrightarrow> f v \<noteq> None"
    and nn: "\<And>v v'. f v = Some v' \<Longrightarrow> v \<noteq> JNull \<Longrightarrow> v' \<noteq> JNull"
    and n1: "nonnull_values c1"
  shows "cleanSteps f re c1 \<noteq> None"
proof -
  have "\<exists>c'. cleanProperties f c1 = Some c' \<and> nonnull_values c'"
  proof (rule cleanProperties_total[OF _ n1])
    fix p v assume "obj_get c1 ''properties'' = Some p" and "v \<in> reach p"
    then show "f v \<noteq> None" by (rule ok)
  qed
  then obtain c2 where e1: "cleanProperties f c1 = Some c2" and n2: "nonnull_values c2"
    by blast
  note f1 = cleanProperties_frame[OF e1, rule_format]
  have "\<exists>c'. cleanItems f (onlyArrayItems c2) = Some c' \<and> nonnull_values c'"
  proof (rule cleanItems_total[OF _ nn nonnull_onlyArrayItems[OF n2]])
    fix i v assume "obj_get (onlyArrayItems c2) ''items'' = Some i" and v: "v \<in> reach i"
    then have "obj_get c1 ''items'' = Some i"
      by (auto dest!: obj_get_onlyArrayItems simp: f1)
    from ok[OF this v] show "f v \<noteq> None" .
  qed
  then obtain c4 where e2: "cleanItems f (onlyArrayItems c2) = Some c4"
    and n4: "nonnull_values c4"
    by blast
  note f2 = cleanItems_frame[OF e2, rule_format]
  have "\<exists>c'. cleanCombinator f ''anyOf'' (cleanRequired c4) = Some c' \<and> nonnull_values c'"
  proof (rule cleanCombinator_total[OF _ nonnull_cleanRequired[OF n4]])
    fix p v assume "obj_get (cleanRequired c4) ''anyOf'' = Some p" and v: "v \<in> reach p"
    then have "obj_get c1 ''anyOf'' = Some p"
      by (simp add: obj_get_cleanRequired f2 obj_get_onlyArrayItems_other f1)
    from ok[OF this v] show "f v \<noteq> None" .
  qed
  then obtain c6 where e3: "cleanCombinator f ''anyOf'' (cleanRequired c4) = Some c6"
    and n6: "nonnull_values c6"
    by blast
  note f3 = cleanCombinator_frame[OF e3, rule_format]
  have "\<exists>c'. cleanCombinator f ''oneOf'' c6 = Some c' \<and> nonnull_values c'"
  proof (rule cleanCombinator_total[OF _ n6])
    fix p v assume "obj_get c6 ''oneOf'' = Some p" and v: "v \<in> reach p"
    then have "obj_get c1 ''oneOf'' = Some p"
      by (simp add: f3 obj_get_cleanRequired f2 obj_get_onlyArrayItems_other f1)
    from ok[OF this v] show "f v \<noteq> None" .
  qed
  then obtain c7 where e4: "cleanCombinator f ''oneOf'' c6 = Some c7"
    and n7: "nonnull_values c7"
    by blast
  note f4 = cleanCombinator_frame[OF e4, rule_format]
  have "\<exists>c'. cleanCombinator f ''allOf'' c7 = Some c' \<and> nonnull_values c'"
  proof (rule cleanCombinator_total[OF _ n7])
    fix p v assume "obj_get c7 ''allOf'' = Some p" and v: "v \<in> reach p"
    then have "obj_get c1 ''allOf'' = Some p"
      by (simp add: f4 f3 obj_get_cleanRequired f2 obj_get_onlyArrayItems_other f1)
    from ok[OF this v] show "f v \<noteq> None" .
  qed
  then obtain c8 where e5: "cleanCombinator f ''allOf'' c7 = Some c8"
    and n8: "nonnull_values c8"
    by blast
  note f5 = cleanCombinator_frame[OF e5, rule_format]
  have "\<exists>c'. cleanNot f c8 = Some c' \<and> nonnull_values c'"
  proof (rule cleanNot_total[OF _ nn n8])
    fix p v assume "obj_get c8 ''not'' = Some p" and v: "v \<in> reach p"
    then have "obj_get c1 ''not'' = Some p"
      by (simp add: f5 f4 f3 obj_get_cleanRequired f2 obj_get_onlyArrayItems_other f1)
    from ok[OF this v] show "f v \<noteq> None" .
  qed
  then obtain c9 where e6: "cleanNot f c8 = Some c9" and n9: "nonnull_values c9"
    by blast
  from removeEmpty_total[OF nonnull_fixPattern[OF n9, of re]] obtain c11 where
    e7: "removeEmpty (fixPattern re c9) = Some c11"
    by auto
  from e1 e2 e3 e4 e5 e6 e7 have "run f re c1 c2 c4 c6 c7 c8 c9 c11"
    by (simp add: run_def)
  then have "cleanSteps f re c1 = Some c11"
    unfolding cleanSteps_run by blast
  then show ?thesis by simp
qed

lemma cleanJsonSchema_nonnull:
  assumes "cleanJsonSchema re v = Some v'" and "v \<noteq> JNull"
  shows "v' \<noteq> JNull"
proof (cases "\<not> truthy v \<or> \<not> typeof_object v")
  case True
  then have "cleanJsonSchema re v = Some v" by (rule cleanJsonSchema_primitive)
  with assms show ?thesis by simp
next
  case False
  then have "truthy v" and "typeof_object v" by simp_all
  from cleanJsonSchema_objectE[OF assms(1) this] show ?thesis by auto
qed

lemma cleanJsonSchema_returns:
  "null_free x \<Longrightarrow> cleanJsonSchema re x \<noteq> None"
proof (induction x rule: measure_induct_rule[of size])
  case (less x)
  show ?case
  proof (cases "\<not> truthy x \<or> \<not> typeof_object x")
    case True
    then show ?thesis by (simp add: cleanJsonSchema_primitive)
  next
    case False
    then have tx: "truthy x" and ox: "typeof_object x" by simp_all
    have ok: "cleanJsonSchema re v \<noteq> None"
      if "obj_get (prepared x) k = Some p" and "v \<in> reach p" for k p v
    proof -
      from prepared_reach[OF that tx ox] have sz: "size v < size x" by simp
      have "null_free p"
      proof (cases "k = ''type'' \<and> (\<exists>t. p = JString t)")
        case True
        then show ?thesis by auto
      next
        case False
        have "(k, p) \<in> set (entries x)"
        proof (cases "k = ''type''")
          case True
          with prepared_type_value[of x] that(1) False show ?thesis by auto
        next
          case False
          with that(1) show ?thesis by (rule prepared_entry)
        qed
        then have "p \<in> set (children x)" by (rule entries_children)
        with less.prems show ?thesis by (rule null_free_children)
      qed
      then have "null_free v" using that(2) by (rule null_free_reach)
      with sz show ?thesis by (rule less.IH)
    qed
    have "cleanSteps (cleanJsonSchema re) re (prepared x) \<noteq> None"
      by (rule cleanSteps_total[OF ok cleanJsonSchema_nonnull nonnull_prepared[OF less.prems]])
    then obtain c where "cleanSteps (cleanJsonSchema re) re (prepared x) = Some c" by auto
    from cleanJsonSchema_objectI[OF this tx ox] show ?thesis by simp
  qed
qed


section \<open>The type of a normalized schema\<close>

lemma type_after_cleaning:
  assumes "distinct (map fst kvs)" and "cleanJsonSchema re (JObject kvs) = Some out"
  shows "\<exists>c. out = JObject c
     \<and> (obj_get kvs ''type'' = None \<longrightarrow> obj_get c ''type'' = Some (JString ''object''))
     \<and> (\<forall>t. obj_get kvs ''type'' = Some (JString t) \<longrightarrow> t \<in> set validTypes
            \<longrightarrow> obj_get c ''type'' = Some (JString t))
     \<and> (\<forall>t. obj_get kvs ''type'' = Some (JString t) \<longrightarrow> t \<notin> set validTypes \<longrightarrow> t \<noteq> []
            \<longrightarrow> obj_get c ''type'' = Some (JString ''string''))
     \<and> (\<forall>v. obj_get kvs ''type'' = Some v \<longrightarrow> (\<forall>t. v \<noteq> JString t)
            \<longrightarrow> obj_get c ''type'' = (if v = JObject [] \<or> v = JArray [] then None else Some v))"
proof -
  from cleanJsonSchema_objectE[OF assms(2)] obtain c11 where out: "out = JObject c11"
    and steps: "cleanSteps (cleanJsonSchema re) re (prepared (JObject kvs)) = Some c11"
    by auto
  from steps[unfolded cleanSteps_run] obtain c2 c4 c6 c7 c8 c9 where
    r: "run (cleanJsonSchema re) re (prepared (JObject kvs)) c2 c4 c6 c7 c8 c9 c11"
    by blast
  let ?c10 = "fixPattern re c9"
  from r have fin: "removeEmpty ?c10 = Some c11" by (simp add: run_def)
  have d10: "distinct (map fst ?c10)"
    using run_wf(7)[OF r wf_prepared] by (simp add: wf_obj_def)
  have t10: "obj_get ?c10 ''type'' =
     (case obj_get kvs ''type'' of
        None \<Rightarrow> Some (JString ''object'')
      | Some (JString t) \<Rightarrow> Some (JString (if t \<in> set validTypes then t else ''string''))
      | Some v \<Rightarrow> Some v)"
    by (simp add: run_type(3)[OF r] prepared_type[OF assms(1)])
  have look: "obj_get c11 ''type'' =
           (case obj_get ?c10 ''type'' of
              None \<Rightarrow> None
            | Some v \<Rightarrow> if removeEmptyKey ''type'' v = Some False then Some v else None)"
    by (rule removeEmpty_lookup[OF fin d10])
  have nothrow: "removeEmptyKey ''type'' v \<noteq> None" if "obj_get ?c10 ''type'' = Some v" for v
    using removeEmpty_no_throw[OF fin, of "''type''" v] that
    by (simp add: obj_get_def map_of_SomeD)
  have keep_str: "removeEmptyKey ''type'' (JString t) = Some False" if "t \<noteq> []" for t
    using that by (simp add: removeEmptyKey_def)
  have valid_nonempty: "t \<noteq> []" if "t \<in> set validTypes" for t
    using that by (auto simp: validTypes_def)
  have a: "obj_get kvs ''type'' = None \<longrightarrow> obj_get c11 ''type'' = Some (JString ''object'')"
  proof
    assume "obj_get kvs ''type'' = None"
    then have "obj_get ?c10 ''type'' = Some (JString ''object'')" by (simp add: t10)
    then show "obj_get c11 ''type'' = Some (JString ''object'')"
      by (simp add: look keep_str)
  qed
  have b: "\<forall>t. obj_get kvs ''type'' = Some (JString t) \<longrightarrow> t \<in> set validTypes
            \<longrightarrow> obj_get c11 ''type'' = Some (JString t)"
  proof (intro allI impI)
    fix t assume "obj_get kvs ''type'' = Some (JString t)" and v: "t \<in> set validTypes"
    then have "obj_get ?c10 ''type'' = Some (JString t)" by (simp add: t10)
    then show "obj_get c11 ''type'' = Some (JString t)"
      by (simp add: look keep_str[OF valid_nonempty[OF v]])
  qed
  have c: "\<forall>t. obj_get kvs ''type'' = Some (JString t) \<longrightarrow> t \<notin> set validTypes \<longrightarrow> t \<noteq> []
            \<longrightarrow> obj_get c11 ''type'' = Some (JString ''string'')"
  proof (intro allI impI)
    fix t assume "obj_get kvs ''type'' = Some (JString t)" and v: "t \<notin> set validTypes"
    then have "obj_get ?c10 ''type'' = Some (JString ''string'')" by (simp add: t10)
    then show "obj_get c11 ''type'' = Some (JString ''string'')"
      by (simp add: look keep_str)
  qed
  have d: "\<forall>v. obj_get kvs ''type'' = Some v \<longrightarrow> (\<forall>t. v \<noteq> JString t)
            \<longrightarrow> obj_get c11 ''type'' = (if v = JObject [] \<or> v = JArray [] then None else Some v)"
  proof (intro allI impI)
    fix v assume v: "obj_get kvs ''type'' = Some v" and ns: "\<forall>t. v \<noteq> JString t"
    then have v10: "obj_get ?c10 ''type'' = Some v"
      by (cases v) (simp_all add: t10)
    from nothrow[OF v10] have nn: "v \<noteq> JNull"
      by (auto simp: removeEmptyKey_def)
    have "removeEmptyKey ''type'' v = Some (v = JObject [] \<or> v = JArray [])"
      using nn ns by (simp add: removeEmptyKey_def)
    then show "obj_get c11 ''type'' = (if v = JObject [] \<or> v = JArray [] then None else Some v)"
      by (simp add: look v10)
  qed
  show ?thesis by (intro exI[of _ c11] conjI out a b c d)
qed

text \<open>
  C6, as the code has it. Let the input be an object (its keys distinct, as those of
  every JavaScript object are). If it holds no \<open>null\<close> at any depth, the normalizer
  returns. Whenever it returns, the output is an object, and its \<open>type\<close> is:
  \<open>"object"\<close> when the input has no \<open>type\<close>; the input's \<open>type\<close> when that is one of the
  seven names; \<open>"string"\<close> when it is a non-empty string that is none of the seven; and,
  when the input's \<open>type\<close> is not a string at all, that same value, uncoerced, except
  that an empty object or empty array is dropped and leaves the output without a
  \<open>type\<close>.
\<close>

theorem normalized_type_of_object_schema:
  assumes "distinct (map fst kvs)"
  shows "(null_free (JObject kvs) \<longrightarrow> cleanJsonSchema re (JObject kvs) \<noteq> None)
     \<and> (\<forall>out. cleanJsonSchema re (JObject kvs) = Some out \<longrightarrow>
          (\<exists>c. out = JObject c
             \<and> (obj_get kvs ''type'' = None \<longrightarrow> obj_get c ''type'' = Some (JString ''object''))
             \<and> (\<forall>t. obj_get kvs ''type'' = Some (JString t) \<longrightarrow> t \<in> set validTypes
                    \<longrightarrow> obj_get c ''type'' = Some (JString t))
             \<and> (\<forall>t. obj_get kvs ''type'' = Some (JString t) \<longrightarrow> t \<notin> set validTypes
                    \<longrightarrow> t \<noteq> [] \<longrightarrow> obj_get c ''type'' = Some (JString ''string''))
             \<and> (\<forall>v. obj_get kvs ''type'' = Some v \<longrightarrow> (\<forall>t. v \<noteq> JString t)
                    \<longrightarrow> obj_get c ''type''
                          = (if v = JObject [] \<or> v = JArray [] then None else Some v))))"
proof (intro conjI allI impI)
  assume "null_free (JObject kvs)"
  then show "cleanJsonSchema re (JObject kvs) \<noteq> None"
    by (rule cleanJsonSchema_returns)
next
  fix out assume "cleanJsonSchema re (JObject kvs) = Some out"
  with assms show "\<exists>c. out = JObject c
     \<and> (obj_get kvs ''type'' = None \<longrightarrow> obj_get c ''type'' = Some (JString ''object''))
     \<and> (\<forall>t. obj_get kvs ''type'' = Some (JString t) \<longrightarrow> t \<in> set validTypes
            \<longrightarrow> obj_get c ''type'' = Some (JString t))
     \<and> (\<forall>t. obj_get kvs ''type'' = Some (JString t) \<longrightarrow> t \<notin> set validTypes \<longrightarrow> t \<noteq> []
            \<longrightarrow> obj_get c ''type'' = Some (JString ''string''))
     \<and> (\<forall>v. obj_get kvs ''type'' = Some v \<longrightarrow> (\<forall>t. v \<noteq> JString t)
            \<longrightarrow> obj_get c ''type'' = (if v = JObject [] \<or> v = JArray [] then None else Some v))"
    by (rule type_after_cleaning)
qed

lemma clean_unknownTypeSchema:
  "cleanJsonSchema exampleRegExp (JObject unknownTypeSchema)
     = Some (JObject [(''type'', JString ''string'')])"
  by code_simp

theorem normalized_type_of_object_schema_witness:
  "distinct (map fst unknownTypeSchema)
   \<and> null_free (JObject unknownTypeSchema)
   \<and> cleanJsonSchema exampleRegExp (JObject unknownTypeSchema)
       = Some (JObject [(''type'', JString ''string'')])
   \<and> obj_get unknownTypeSchema ''type'' = Some (JString ''text'')
   \<and> ''text'' \<notin> set validTypes
   \<and> obj_get [(''type'', JString ''string'')] ''type'' = Some (JString ''string'')"
proof -
  have d: "distinct (map fst unknownTypeSchema)"
    by (simp add: unknownTypeSchema_def)
  have nf: "null_free (JObject unknownTypeSchema)"
    by (simp add: unknownTypeSchema_def)
  have t: "obj_get unknownTypeSchema ''type'' = Some (JString ''text'')"
    and n: "''text'' \<notin> set validTypes" and e: "''text'' \<noteq> []"
    by (simp_all add: unknownTypeSchema_def obj_get_def validTypes_def)
  from normalized_type_of_object_schema[OF d, of exampleRegExp] clean_unknownTypeSchema
  obtain c where c: "JObject [(''type'', JString ''string'')] = JObject c"
    and "\<forall>t. obj_get unknownTypeSchema ''type'' = Some (JString t) \<longrightarrow> t \<notin> set validTypes
           \<longrightarrow> t \<noteq> [] \<longrightarrow> obj_get c ''type'' = Some (JString ''string'')"
    by blast
  with t n e have "obj_get c ''type'' = Some (JString ''string'')"
    by blast
  with c have "obj_get [(''type'', JString ''string'')] ''type'' = Some (JString ''string'')"
    by simp
  with d nf clean_unknownTypeSchema t n show ?thesis by blast
qed

text \<open>
  C6 as the spec states it fails: a \<open>type\<close> that is present and is not one of the seven
  names, here the array \<open>["string", "null"]\<close>, is not coerced to \<open>"string"\<close>. The
  normalizer returns the schema as it came, and so does the adapter's conversion of a
  tool with that schema.
\<close>

theorem union_type_counterexample:
  "cleanJsonSchema exampleRegExp unionTypeSchema = Some unionTypeSchema
   \<and> convertTool exampleRegExp
        \<lparr>name = ''lookup'', description = None, input_schema = Some unionTypeSchema\<rparr>
      = Some \<lparr>c_name = ''lookup'', c_description = ''lookup'',
               c_input_schema = JObject [(''type'', JArray [JString ''string'', JString ''null''])]\<rparr>"
  by code_simp


end
